theory Spec2Isabelle
  imports Complex_Main "HOL-Library.Monad_Syntax"
begin

section \<open>The store and the data model (ScapegoatTree.h)\<close>

text \<open>
  The tree of \<^verbatim>\<open>ScapegoatTree.cpp\<close> is a graph of heap nodes joined by raw pointers that
  the operations rewire in place, so the model keeps an explicit store: a pointer is
  \<open>None\<close> (\<^verbatim>\<open>nullptr\<close>) or \<open>Some a\<close> for an address \<open>a\<close>, and the store maps every
  allocated address to its node. Every function that reads or writes memory runs in the
  option monad: \<open>None\<close> is "no defined result" (a null or dangling pointer was
  dereferenced, an empty stack was read, or the walk never ends), so a theorem of the
  form \<open>f x = Some y\<close> says that the call returns, without undefined behaviour, the
  value \<open>y\<close>.

  \<^verbatim>\<open>size_t\<close> counters are natural numbers (they count allocated nodes and stay far
  below \<open>2^64\<close>); \<^verbatim>\<open>int\<close> keys are integers (the code only compares and copies them).
  Where the code converts a \<^verbatim>\<open>size_t\<close> to a 32-bit \<^verbatim>\<open>int\<close> the wrap-around is written
  out.
\<close>

subsection \<open>Doubles\<close>

text \<open>
  A \<^verbatim>\<open>double\<close> is a number, an infinity or a NaN. The comparisons are those of IEEE 754:
  every comparison with a NaN is false.
\<close>

datatype double = Num real | PInf | NInf | NaN

definition dle :: "double \<Rightarrow> double \<Rightarrow> bool" where
  "dle x y =
     (case x of
        NaN \<Rightarrow> False
      | NInf \<Rightarrow> y \<noteq> NaN
      | PInf \<Rightarrow> y = PInf
      | Num a \<Rightarrow> (case y of Num b \<Rightarrow> a \<le> b | PInf \<Rightarrow> True | NInf \<Rightarrow> False | NaN \<Rightarrow> False))"

definition dge :: "double \<Rightarrow> double \<Rightarrow> bool" where
  "dge x y = dle y x"

text \<open>
  The arithmetic on doubles is not code of this repository: the product
  \<^verbatim>\<open>alpha * maxSize\<close> and the conversion of a \<^verbatim>\<open>size_t\<close> are rounded by the processor, and
  \<^verbatim>\<open>floor(log(size) / log(1 / alpha))\<close> is computed by the C library. Both are parameters
  of the model. A floating-point unit \<open>fp\<close> is a pair: the function that gives, for a
  balance factor in \<open>(0, 1)\<close> and a size, the value that \<^verbatim>\<open>getAlphaDeepHeight\<close> computes,
  of which nothing is assumed; and the rounding of a real number to a double, which is
  monotone and leaves zero alone (as every IEEE rounding mode is and does).
\<close>

typedef fpu = "{p :: (real \<Rightarrow> nat \<Rightarrow> nat) \<times> (real \<Rightarrow> real). mono (snd p) \<and> snd p 0 = 0}"
  by (rule exI[of _ "(\<lambda>a n. 0, \<lambda>x. x)"]) (simp add: mono_def)

definition fp_deep :: "fpu \<Rightarrow> real \<Rightarrow> nat \<Rightarrow> nat" where
  "fp_deep fp = fst (Rep_fpu fp)"

definition fp_round :: "fpu \<Rightarrow> real \<Rightarrow> real" where
  "fp_round fp = snd (Rep_fpu fp)"

text \<open>\<^verbatim>\<open>static_cast<double>(n)\<close> for a \<^verbatim>\<open>size_t\<close>, and the product of two doubles.\<close>

definition of_size :: "fpu \<Rightarrow> nat \<Rightarrow> double" where
  "of_size fp n = Num (fp_round fp (real n))"

definition inf_times :: "bool \<Rightarrow> double \<Rightarrow> double" where
  "inf_times pos y =
     (case y of
        NaN \<Rightarrow> NaN
      | PInf \<Rightarrow> (if pos then PInf else NInf)
      | NInf \<Rightarrow> (if pos then NInf else PInf)
      | Num b \<Rightarrow> (if b = 0 then NaN else if (0 < b) = pos then PInf else NInf))"

definition dmul :: "fpu \<Rightarrow> double \<Rightarrow> double \<Rightarrow> double" where
  "dmul fp x y =
     (case x of
        NaN \<Rightarrow> NaN
      | PInf \<Rightarrow> inf_times True y
      | NInf \<Rightarrow> inf_times False y
      | Num a \<Rightarrow>
          (case y of
             Num b \<Rightarrow> Num (fp_round fp (a * b))
           | PInf \<Rightarrow> inf_times True x
           | NInf \<Rightarrow> inf_times False x
           | NaN \<Rightarrow> NaN))"


subsection \<open>Nodes and the object\<close>

type_synonym ptr = "nat option"

record Node =
  key :: int
  left :: ptr
  right :: ptr

type_synonym heap = "nat \<Rightarrow> Node option"

text \<open>
  The object itself: the fields of the class, together with the store holding its nodes
  and the next address the allocator hands out (\<^verbatim>\<open>new Node\<close>).
\<close>

record ScapegoatTree =
  heap :: heap
  next_addr :: nat
  root_f :: ptr
  size_f :: nat
  maxSize :: nat
  alpha :: double
  replaceWithSucc :: bool

datatype error = InvalidArgument

definition kMinAlpha :: real where
  "kMinAlpha = 0.5"

definition kMaxAlpha :: real where
  "kMaxAlpha = 1.0"

subsection \<open>Memory access\<close>

text \<open>\<^verbatim>\<open>p->field\<close> as a read and as a write; both are undefined on a pointer that is null
  or not allocated.\<close>

definition load :: "heap \<Rightarrow> ptr \<Rightarrow> Node option" where
  "load h p = (case p of None \<Rightarrow> None | Some a \<Rightarrow> h a)"

definition set_left :: "heap \<Rightarrow> ptr \<Rightarrow> ptr \<Rightarrow> heap option" where
  "set_left h p v = do { a \<leftarrow> p; n \<leftarrow> h a; Some (h(a \<mapsto> n\<lparr>left := v\<rparr>)) }"

definition set_right :: "heap \<Rightarrow> ptr \<Rightarrow> ptr \<Rightarrow> heap option" where
  "set_right h p v = do { a \<leftarrow> p; n \<leftarrow> h a; Some (h(a \<mapsto> n\<lparr>right := v\<rparr>)) }"

definition set_key :: "heap \<Rightarrow> ptr \<Rightarrow> int \<Rightarrow> heap option" where
  "set_key h p v = do { a \<leftarrow> p; n \<leftarrow> h a; Some (h(a \<mapsto> n\<lparr>key := v\<rparr>)) }"

text \<open>\<^verbatim>\<open>delete p\<close>.\<close>

definition delete_node :: "heap \<Rightarrow> ptr \<Rightarrow> heap option" where
  "delete_node h p = do { a \<leftarrow> p; _ \<leftarrow> h a; Some (h(a := None)) }"

text \<open>\<^verbatim>\<open>std::stack\<close>: the top is the head of the list; \<^verbatim>\<open>top\<close> and \<^verbatim>\<open>pop\<close> are undefined
  on an empty stack.\<close>

definition stack_top :: "'a list \<Rightarrow> 'a option" where
  "stack_top st = (case st of [] \<Rightarrow> None | x # _ \<Rightarrow> Some x)"

definition stack_pop :: "'a list \<Rightarrow> 'a list option" where
  "stack_pop st = (case st of [] \<Rightarrow> None | _ # xs \<Rightarrow> Some xs)"

section \<open>The operations (ScapegoatTree.cpp)\<close>

subsection \<open>Constructor\<close>

text \<open>The guard is \<^verbatim>\<open>alpha <= kMinAlpha || alpha >= kMaxAlpha\<close>; when it does not throw,
  the given double is stored and the other fields keep their initialisers.\<close>

definition ScapegoatTree_ctor :: "double \<Rightarrow> error + ScapegoatTree" where
  "ScapegoatTree_ctor x =
     (if dle x (Num kMinAlpha) \<or> dge x (Num kMaxAlpha) then Inl InvalidArgument
      else Inr \<lparr>heap = Map.empty, next_addr = 0, root_f = None, size_f = 0, maxSize = 0,
                alpha = x, replaceWithSucc = True\<rparr>)"

text \<open>The same guard as the generic tree of \<^verbatim>\<open>GenericScapegoatTree.h\<close> has it, in a helper
  that both of its constructors call first; it throws or returns nothing.\<close>

definition checkInvalidAlpha :: "double \<Rightarrow> error + unit" where
  "checkInvalidAlpha x =
     (if dle x (Num kMinAlpha) \<or> dge x (Num kMaxAlpha) then Inl InvalidArgument else Inr ())"

subsection \<open>getAlphaDeepHeight, getSubtreeSize\<close>

text \<open>
  \<^verbatim>\<open>static_cast<size_t>(floor(log(size) / log(1 / alpha)))\<close>. The conversion to
  \<^verbatim>\<open>size_t\<close> is defined only for a finite, non-negative quotient. For a balance factor
  that is a number in \<open>(0, 1)\<close> and a size of at least 1 the logarithms are finite,
  \<^verbatim>\<open>log(size)\<close> is not negative and \<^verbatim>\<open>log(1 / alpha)\<close> is positive, and the value is the
  one the floating-point unit computes. Otherwise (\<^verbatim>\<open>log(0)\<close> is minus infinity, a
  factor outside \<open>(0, 1)\<close> gives a negative or undefined quotient, a NaN gives a NaN)
  the conversion is undefined.
\<close>

definition getAlphaDeepHeight :: "fpu \<Rightarrow> ScapegoatTree \<Rightarrow> nat \<Rightarrow> nat option" where
  "getAlphaDeepHeight fp s n =
     (case alpha s of
        Num a \<Rightarrow> (if n = 0 \<or> a \<le> 0 \<or> a \<ge> 1 then None else Some (fp_deep fp a n))
      | _ \<Rightarrow> None)"

partial_function (option) getSubtreeSize :: "heap \<Rightarrow> ptr \<Rightarrow> nat option" where
  "getSubtreeSize h node =
     (case node of
        None \<Rightarrow> Some 0
      | Some a \<Rightarrow> do {
          n \<leftarrow> h a;
          l \<leftarrow> getSubtreeSize h (left n);
          r \<leftarrow> getSubtreeSize h (right n);
          Some (1 + l + r)
        })"

subsection \<open>search\<close>

partial_function (option) search_loop :: "heap \<Rightarrow> int \<Rightarrow> ptr \<Rightarrow> bool option" where
  "search_loop h k cur =
     (case cur of
        None \<Rightarrow> Some False
      | Some a \<Rightarrow> do {
          n \<leftarrow> h a;
          if k = key n then Some True
          else if k < key n then search_loop h k (left n)
          else search_loop h k (right n)
        })"

definition search :: "ScapegoatTree \<Rightarrow> int \<Rightarrow> bool option" where
  "search s k = search_loop (heap s) k (root_f s)"

subsection \<open>flatten, buildTree, rebuild\<close>

partial_function (option) flatten :: "heap \<Rightarrow> ptr \<Rightarrow> ptr \<Rightarrow> (ptr \<times> heap) option" where
  "flatten h treeRoot listHead =
     (case treeRoot of
        None \<Rightarrow> Some (listHead, h)
      | Some a \<Rightarrow> do {
          n \<leftarrow> h a;
          (r, h) \<leftarrow> flatten h (right n) listHead;
          h \<leftarrow> set_right h treeRoot r;
          n \<leftarrow> h a;
          flatten h (left n) treeRoot
        })"

partial_function (option) buildTree :: "heap \<Rightarrow> nat \<Rightarrow> ptr \<Rightarrow> (ptr \<times> heap) option" where
  "buildTree h treeSize listHead =
     (if treeSize = 0 then do {
        h \<leftarrow> set_left h listHead None;
        Some (listHead, h)
      }
      else do {
        let halfTreeSize = (real treeSize - 1.0) / 2.0;
        (firstHalf, h) \<leftarrow> buildTree h (nat \<lceil>halfTreeSize\<rceil>) listHead;
        fn \<leftarrow> load h firstHalf;
        (secondHalf, h) \<leftarrow> buildTree h (nat \<lfloor>halfTreeSize\<rfloor>) (right fn);
        sn \<leftarrow> load h secondHalf;
        h \<leftarrow> set_right h firstHalf (left sn);
        h \<leftarrow> set_left h secondHalf firstHalf;
        Some (secondHalf, h)
      })"

record Scapegoat =
  scapegoat :: ptr
  parent :: ptr
  treeSize :: nat

text \<open>The local \<^verbatim>\<open>dummy\<close> node lives at an address no heap node has (the next free one)
  for the duration of the call.\<close>

definition rebuild :: "ScapegoatTree \<Rightarrow> Scapegoat \<Rightarrow> ScapegoatTree option" where
  "rebuild s sg = do {
     let dummy = Some (next_addr s);
     let h = (heap s)(next_addr s \<mapsto> \<lparr>key = -1, left = None, right = None\<rparr>);
     (nodeList, h) \<leftarrow> flatten h (scapegoat sg) dummy;
     (_, h) \<leftarrow> buildTree h (treeSize sg) nodeList;
     dn \<leftarrow> load h dummy;
     s \<leftarrow> (if parent sg = None then
             Some (s\<lparr>heap := h, root_f := left dn, maxSize := size_f s\<rparr>)
           else do {
             pn \<leftarrow> load h (parent sg);
             if scapegoat sg = left pn then do {
               h \<leftarrow> set_left h (parent sg) (left dn);
               Some (s\<lparr>heap := h\<rparr>)
             } else do {
               h \<leftarrow> set_right h (parent sg) (left dn);
               Some (s\<lparr>heap := h\<rparr>)
             }
           });
     h \<leftarrow> delete_node (heap s) dummy;
     Some (s\<lparr>heap := h\<rparr>)
   }"

subsection \<open>findScapegoat\<close>

partial_function (option) findScapegoat_loop ::
  "fpu \<Rightarrow> ScapegoatTree \<Rightarrow> ptr list \<Rightarrow> ptr \<Rightarrow> ptr \<Rightarrow> nat \<Rightarrow> nat \<Rightarrow> Scapegoat option" where
  "findScapegoat_loop fp s insertionPath cur par currSize currIndex =
     (if par = None then
        Some \<lparr>scapegoat = cur, parent = par, treeSize = currSize\<rparr>
      else do {
        deep \<leftarrow> getAlphaDeepHeight fp s currSize;
        if currIndex > deep then
          Some \<lparr>scapegoat = cur, parent = par, treeSize = currSize\<rparr>
        else do {
          pn \<leftarrow> load (heap s) par;
          sibling \<leftarrow> (if left pn = cur then getSubtreeSize (heap s) (right pn)
                      else getSubtreeSize (heap s) (left pn));
          let currSize = currSize + (1 + sibling);
          let cur = par;
          par \<leftarrow> stack_top insertionPath;
          insertionPath \<leftarrow> stack_pop insertionPath;
          findScapegoat_loop fp s insertionPath cur par currSize (currIndex + 1)
        }
      })"

definition findScapegoat :: "fpu \<Rightarrow> ScapegoatTree \<Rightarrow> ptr list \<Rightarrow> Scapegoat option" where
  "findScapegoat fp s insertionPath = do {
     cur \<leftarrow> stack_top insertionPath;
     insertionPath \<leftarrow> stack_pop insertionPath;
     par \<leftarrow> stack_top insertionPath;
     insertionPath \<leftarrow> stack_pop insertionPath;
     currSize \<leftarrow> getSubtreeSize (heap s) cur;
     findScapegoat_loop fp s insertionPath cur par currSize 1
   }"

subsection \<open>insert\<close>

text \<open>The descent of \<^verbatim>\<open>insert\<close>: \<open>Some None\<close> is the early \<^verbatim>\<open>return false\<close> (key
  already present), \<open>Some (Some (insertionPath, prev))\<close> the exit of the loop.\<close>

partial_function (option) insert_loop ::
  "heap \<Rightarrow> int \<Rightarrow> ptr list \<Rightarrow> ptr \<Rightarrow> ptr \<Rightarrow> (ptr list \<times> ptr) option option" where
  "insert_loop h k insertionPath prev cur =
     (case cur of
        None \<Rightarrow> Some (Some (insertionPath, prev))
      | Some a \<Rightarrow> do {
          let insertionPath = cur # insertionPath;
          let prev = cur;
          n \<leftarrow> h a;
          if k = key n then Some None
          else if k < key n then insert_loop h k insertionPath prev (left n)
          else insert_loop h k insertionPath prev (right n)
        })"

text \<open>Allocation and wiring of the new leaf, then the size counters (lines 67--83).\<close>

definition insert_wire :: "ScapegoatTree \<Rightarrow> int \<Rightarrow> ptr \<Rightarrow> ScapegoatTree option" where
  "insert_wire s k prev = do {
     let node = Some (next_addr s);
     let s = s\<lparr>heap := (heap s)(next_addr s \<mapsto> \<lparr>key = k, left = None, right = None\<rparr>),
               next_addr := next_addr s + 1\<rparr>;
     s \<leftarrow> (if prev = None then Some (s\<lparr>root_f := node\<rparr>)
           else do {
             pn \<leftarrow> load (heap s) prev;
             if k < key pn then do {
               h \<leftarrow> set_left (heap s) prev node;
               Some (s\<lparr>heap := h\<rparr>)
             } else do {
               h \<leftarrow> set_right (heap s) prev node;
               Some (s\<lparr>heap := h\<rparr>)
             }
           });
     let s = s\<lparr>size_f := size_f s + 1\<rparr>;
     let s = (if size_f s > maxSize s then s\<lparr>maxSize := size_f s\<rparr> else s);
     Some s
   }"

definition insert_key :: "fpu \<Rightarrow> ScapegoatTree \<Rightarrow> int \<Rightarrow> (bool \<times> ScapegoatTree) option" where
  "insert_key fp s k = do {
     found \<leftarrow> insert_loop (heap s) k [None] None (root_f s);
     case found of
       None \<Rightarrow> Some (False, s)
     | Some (insertionPath, prev) \<Rightarrow> do {
         s \<leftarrow> insert_wire s k prev;
         deepHeight \<leftarrow> getAlphaDeepHeight fp s (size_f s);
         let insertionHeight = length insertionPath - 1;
         if insertionHeight \<ge> 1 \<and> insertionHeight > deepHeight then do {
           sg \<leftarrow> findScapegoat fp s insertionPath;
           s \<leftarrow> rebuild s sg;
           Some (True, s)
         } else Some (True, s)
       }
   }"

subsection \<open>remove\<close>

text \<open>The search loop of \<^verbatim>\<open>remove\<close>: \<open>Some None\<close> is the early \<^verbatim>\<open>return false\<close>,
  \<open>Some (Some (prev, cur))\<close> the \<^verbatim>\<open>break\<close>.\<close>

partial_function (option) remove_loop ::
  "heap \<Rightarrow> int \<Rightarrow> ptr \<Rightarrow> ptr \<Rightarrow> (ptr \<times> ptr) option option" where
  "remove_loop h k prev cur =
     (case cur of
        None \<Rightarrow> Some None
      | Some a \<Rightarrow> do {
          n \<leftarrow> h a;
          if k = key n then Some (Some (prev, cur))
          else if k < key n then remove_loop h k cur (left n)
          else if k > key n then remove_loop h k cur (right n)
          else remove_loop h k cur cur
        })"

text \<open>\<^verbatim>\<open>while (curr->left) { prev = curr; curr = curr->left; }\<close> and its mirror image.\<close>

partial_function (option) left_spine :: "heap \<Rightarrow> ptr \<Rightarrow> ptr \<Rightarrow> (ptr \<times> ptr) option" where
  "left_spine h prev cur = do {
     cn \<leftarrow> load h cur;
     if left cn \<noteq> None then left_spine h cur (left cn) else Some (prev, cur)
   }"

partial_function (option) right_spine :: "heap \<Rightarrow> ptr \<Rightarrow> ptr \<Rightarrow> (ptr \<times> ptr) option" where
  "right_spine h prev cur = do {
     cn \<leftarrow> load h cur;
     if right cn \<noteq> None then right_spine h cur (right cn) else Some (prev, cur)
   }"

definition removeNodeWithTwoChildren :: "ScapegoatTree \<Rightarrow> ptr \<Rightarrow> ScapegoatTree option" where
  "removeNodeWithTwoChildren s node = do {
     let prev = node;
     nn \<leftarrow> load (heap s) node;
     (cur, h) \<leftarrow>
       (if replaceWithSucc s then do {
          let cur = right nn;
          cn \<leftarrow> load (heap s) cur;
          if left cn = None then do {
            h \<leftarrow> set_right (heap s) node (right cn);
            Some (cur, h)
          } else do {
            (prev, cur) \<leftarrow> left_spine (heap s) prev cur;
            cn \<leftarrow> load (heap s) cur;
            h \<leftarrow> set_left (heap s) prev (right cn);
            Some (cur, h)
          }
        } else do {
          let cur = left nn;
          cn \<leftarrow> load (heap s) cur;
          if right cn = None then do {
            h \<leftarrow> set_left (heap s) node (left cn);
            Some (cur, h)
          } else do {
            (prev, cur) \<leftarrow> right_spine (heap s) prev cur;
            cn \<leftarrow> load (heap s) cur;
            h \<leftarrow> set_right (heap s) prev (left cn);
            Some (cur, h)
          }
        });
     cn \<leftarrow> load h cur;
     h \<leftarrow> set_key h node (key cn);
     h \<leftarrow> delete_node h cur;
     Some (s\<lparr>heap := h, replaceWithSucc := \<not> replaceWithSucc s\<rparr>)
   }"

definition removeNodeWithoutChild :: "ScapegoatTree \<Rightarrow> ptr \<Rightarrow> ptr \<Rightarrow> ScapegoatTree option" where
  "removeNodeWithoutChild s node par = do {
     nn \<leftarrow> load (heap s) node;
     let child = (if left nn \<noteq> None then left nn else right nn);
     s \<leftarrow> (if root_f s = node then Some (s\<lparr>root_f := child\<rparr>)
           else do {
             pn \<leftarrow> load (heap s) par;
             if left pn = node then do {
               h \<leftarrow> set_left (heap s) par child;
               Some (s\<lparr>heap := h\<rparr>)
             } else do {
               h \<leftarrow> set_right (heap s) par child;
               Some (s\<lparr>heap := h\<rparr>)
             }
           });
     h \<leftarrow> delete_node (heap s) node;
     Some (s\<lparr>heap := h\<rparr>)
   }"

text \<open>Lines 114--119: the node found is spliced out by one of the two subroutines.\<close>

definition remove_splice :: "ScapegoatTree \<Rightarrow> ptr \<Rightarrow> ptr \<Rightarrow> ScapegoatTree option" where
  "remove_splice s prev cur = do {
     cn \<leftarrow> load (heap s) cur;
     if left cn \<noteq> None \<and> right cn \<noteq> None then removeNodeWithTwoChildren s cur
     else removeNodeWithoutChild s cur prev
   }"

text \<open>\<^verbatim>\<open>size--\<close> on a \<^verbatim>\<open>size_t\<close> wraps at zero.\<close>

definition decr_size :: "nat \<Rightarrow> nat" where
  "decr_size n = (if n = 0 then 2 ^ 64 - 1 else n - 1)"

text \<open>\<^verbatim>\<open>size <= alpha * maxSize\<close>: both counters are converted to doubles, the product is
  rounded, and the comparison is that of doubles.\<close>

definition remove_key :: "fpu \<Rightarrow> ScapegoatTree \<Rightarrow> int \<Rightarrow> (bool \<times> ScapegoatTree) option" where
  "remove_key fp s k = do {
     found \<leftarrow> remove_loop (heap s) k None (root_f s);
     case found of
       None \<Rightarrow> Some (False, s)
     | Some (prev, cur) \<Rightarrow> do {
         s \<leftarrow> remove_splice s prev cur;
         let s = s\<lparr>size_f := decr_size (size_f s)\<rparr>;
         if dle (of_size fp (size_f s)) (dmul fp (alpha s) (of_size fp (maxSize s))) then do {
           s \<leftarrow> rebuild s \<lparr>scapegoat = root_f s, parent = None, treeSize = size_f s\<rparr>;
           Some (True, s)
         } else Some (True, s)
       }
   }"

subsection \<open>verify\<close>




subsection \<open>Sequences of calls\<close>

datatype call = Insert int | Remove int

fun do_call :: "fpu \<Rightarrow> ScapegoatTree \<Rightarrow> call \<Rightarrow> (bool \<times> ScapegoatTree) option" where
  "do_call fp s (Insert k) = insert_key fp s k"
| "do_call fp s (Remove k) = remove_key fp s k"

text \<open>A sequence of calls on one object: the values returned, in order, and the final
  state.\<close>

fun run :: "fpu \<Rightarrow> ScapegoatTree \<Rightarrow> call list \<Rightarrow> (bool list \<times> ScapegoatTree) option" where
  "run fp s [] = Some ([], s)"
| "run fp s (c # cs) = do {
     (b, s) \<leftarrow> do_call fp s c;
     (bs, s) \<leftarrow> run fp s cs;
     Some (b # bs, s)
   }"

text \<open>
  The set of keys the specification expects to be present after a sequence of calls, and
  the values it expects the calls to return: an insert adds its key and succeeds when
  the key was absent, a remove deletes its key and succeeds when the key was present.
\<close>

fun live_after :: "int set \<Rightarrow> call list \<Rightarrow> int set" where
  "live_after S [] = S"
| "live_after S (Insert k # cs) = live_after (insert k S) cs"
| "live_after S (Remove k # cs) = live_after (S - {k}) cs"

fun expected :: "int set \<Rightarrow> call list \<Rightarrow> bool list" where
  "expected S [] = []"
| "expected S (Insert k # cs) = (k \<notin> S) # expected (insert k S) cs"
| "expected S (Remove k # cs) = (k \<in> S) # expected (S - {k}) cs"

section \<open>The tree a store holds\<close>

text \<open>
  The proofs relate the store to the tree it represents. A tree value records, for every
  node, its address and its key; \<open>stored h t\<close> says that the store \<open>h\<close> holds every node
  of \<open>t\<close> with exactly the child pointers \<open>t\<close> prescribes, and \<open>tree_at h p t\<close> that the
  pointer \<open>p\<close> leads to it.
\<close>

datatype tree = Leaf | Br tree nat int tree

fun rootp :: "tree \<Rightarrow> ptr" where
  "rootp Leaf = None"
| "rootp (Br l a k r) = Some a"

fun stored :: "heap \<Rightarrow> tree \<Rightarrow> bool" where
  "stored h Leaf = True"
| "stored h (Br l a k r) =
     (h a = Some \<lparr>key = k, left = rootp l, right = rootp r\<rparr> \<and> stored h l \<and> stored h r)"

definition tree_at :: "heap \<Rightarrow> ptr \<Rightarrow> tree \<Rightarrow> bool" where
  "tree_at h p t = (p = rootp t \<and> stored h t)"

fun addrs :: "tree \<Rightarrow> nat list" where
  "addrs Leaf = []"
| "addrs (Br l a k r) = addrs l @ a # addrs r"

fun keys :: "tree \<Rightarrow> int list" where
  "keys Leaf = []"
| "keys (Br l a k r) = keys l @ k # keys r"

fun nodes :: "tree \<Rightarrow> (nat \<times> int) list" where
  "nodes Leaf = []"
| "nodes (Br l a k r) = nodes l @ (a, k) # nodes r"

fun tsize :: "tree \<Rightarrow> nat" where
  "tsize Leaf = 0"
| "tsize (Br l a k r) = 1 + tsize l + tsize r"


text \<open>The BST invariant in the words of the specification: every key of the left subtree
  is strictly less than the node's key, every key of the right subtree strictly greater.\<close>

fun bst :: "tree \<Rightarrow> bool" where
  "bst Leaf = True"
| "bst (Br l a k r) =
     (bst l \<and> bst r \<and> list_all (\<lambda>x. x < k) (keys l) \<and> list_all (\<lambda>x. k < x) (keys r))"

text \<open>A well-formed store for a tree: the tree is stored, and no address occurs twice
  (ownership is a strict tree, with no sharing and no cycle).\<close>

definition owns :: "heap \<Rightarrow> ptr \<Rightarrow> tree \<Rightarrow> bool" where
  "owns h p t = (tree_at h p t \<and> distinct (addrs t))"

text \<open>A right-linked chain from \<open>p\<close> through the listed nodes, ending in the pointer \<open>q\<close>
  (what \<^verbatim>\<open>flatten\<close> produces; the left pointers of its nodes are stale).\<close>

fun chain :: "heap \<Rightarrow> ptr \<Rightarrow> (nat \<times> int) list \<Rightarrow> ptr \<Rightarrow> bool" where
  "chain h p [] q = (p = q)"
| "chain h p (x # xs) q =
     (p = Some (fst x) \<and>
      (case h (fst x) of None \<Rightarrow> False | Some n \<Rightarrow> key n = snd x \<and> chain h (right n) xs q))"

text \<open>The tree \<^verbatim>\<open>buildTree\<close> makes of a chain: the first \<open>\<lceil>(n-1)/2\<rceil>\<close> nodes go left, the
  next node is the root, the remaining \<open>\<lfloor>(n-1)/2\<rfloor>\<close> go right.\<close>

function build :: "(nat \<times> int) list \<Rightarrow> tree" where
  "build xs =
     (if xs = [] then Leaf
      else Br (build (take (length xs div 2) xs))
              (fst (xs ! (length xs div 2))) (snd (xs ! (length xs div 2)))
              (build (drop (Suc (length xs div 2)) xs)))"
  by pat_completeness auto
termination
  by (relation "measure length") auto

declare build.simps [simp del]

text \<open>The split the specification describes, at every node: of the \<open>n\<close> nodes of a
  subtree, \<open>\<lceil>(n-1)/2\<rceil>\<close> are in the left child and \<open>\<lfloor>(n-1)/2\<rfloor>\<close> in the right.\<close>

fun evenly_split :: "tree \<Rightarrow> bool" where
  "evenly_split Leaf = True"
| "evenly_split (Br l a k r) =
     (tsize l = nat \<lceil>(real (tsize (Br l a k r)) - 1) / 2\<rceil>
      \<and> tsize r = nat \<lfloor>(real (tsize (Br l a k r)) - 1) / 2\<rfloor>
      \<and> evenly_split l \<and> evenly_split r)"

text \<open>
  A path from a node up to the root, deepest frame first. A frame is an ancestor with
  the subtree that hangs off the path: \<open>LH a k r\<close> when the path continues into the left
  child of the node \<open>a\<close> (key \<open>k\<close>, right subtree \<open>r\<close>), \<open>RH l a k\<close> when it continues
  into the right child.
\<close>

datatype frame = LH nat int tree | RH tree nat int

fun faddr :: "frame \<Rightarrow> nat" where
  "faddr (LH a k r) = a"
| "faddr (RH l a k) = a"

fun sibling :: "frame \<Rightarrow> tree" where
  "sibling (LH a k r) = r"
| "sibling (RH l a k) = l"

fun fill :: "frame \<Rightarrow> tree \<Rightarrow> tree" where
  "fill (LH a k r) u = Br u a k r"
| "fill (RH l a k) u = Br l a k u"

fun plug :: "tree \<Rightarrow> frame list \<Rightarrow> tree" where
  "plug u [] = u"
| "plug u (f # fs) = plug (fill f u) fs"

text \<open>The insertion path of \<^verbatim>\<open>insert\<close> for a list of frames: the ancestors, deepest on
  top, above the \<^verbatim>\<open>nullptr\<close> sentinel; and the pointer to the deepest ancestor.\<close>

definition path_of :: "frame list \<Rightarrow> ptr list" where
  "path_of fs = map (\<lambda>f. Some (faddr f)) fs @ [None]"

definition prev_of :: "frame list \<Rightarrow> ptr" where
  "prev_of fs = (case fs of [] \<Rightarrow> None | f # _ \<Rightarrow> Some (faddr f))"

fun stored_ctx :: "heap \<Rightarrow> ptr \<Rightarrow> frame list \<Rightarrow> bool" where
  "stored_ctx h q [] = True"
| "stored_ctx h q (LH a k r # fs) =
     (h a = Some \<lparr>key = k, left = q, right = rootp r\<rparr> \<and> stored h r \<and> stored_ctx h (Some a) fs)"
| "stored_ctx h q (RH l a k # fs) =
     (h a = Some \<lparr>key = k, left = rootp l, right = q\<rparr> \<and> stored h l \<and> stored_ctx h (Some a) fs)"

text \<open>The node of a frame with the slot of the hole pointing to \<open>q\<close>.\<close>

definition set_slot :: "frame \<Rightarrow> ptr \<Rightarrow> Node" where
  "set_slot f q = (case f of LH a k r \<Rightarrow> \<lparr>key = k, left = q, right = rootp r\<rparr>
                   | RH l a k \<Rightarrow> \<lparr>key = k, left = rootp l, right = q\<rparr>)"

text \<open>The nodes of a path that come before and after the hole in the in-order
  traversal.\<close>

fun before :: "frame list \<Rightarrow> (nat \<times> int) list" where
  "before [] = []"
| "before (LH a k r # fs) = before fs"
| "before (RH l a k # fs) = before fs @ nodes l @ [(a, k)]"

fun after :: "frame list \<Rightarrow> (nat \<times> int) list" where
  "after [] = []"
| "after (LH a k r # fs) = (a, k) # nodes r @ after fs"
| "after (RH l a k # fs) = after fs"

definition caddrs :: "frame list \<Rightarrow> nat list" where
  "caddrs fs = map fst (before fs @ after fs)"

text \<open>The descent of \<^verbatim>\<open>insert\<close> on a tree value: the frames passed, or \<open>None\<close> when the
  key is met on the way. A frame fits a key when the key lies on the side of the hole.\<close>

fun descend :: "int \<Rightarrow> tree \<Rightarrow> frame list \<Rightarrow> frame list option" where
  "descend k Leaf fs = Some fs"
| "descend k (Br l a x r) fs =
     (if k = x then None
      else if k < x then descend k l (LH a x r # fs)
      else descend k r (RH l a x # fs))"

fun fits :: "int \<Rightarrow> frame \<Rightarrow> bool" where
  "fits k (LH a x r) = (k < x)"
| "fits k (RH l a x) = (x < k)"

text \<open>The walk of \<^verbatim>\<open>findScapegoat\<close> on a tree value: from the subtree \<open>u\<close> of the
  \<open>i\<close>-th ancestor upwards, for a deep-height function \<open>dh\<close>.\<close>

fun find_sg :: "(nat \<Rightarrow> nat) \<Rightarrow> tree \<Rightarrow> nat \<Rightarrow> frame list \<Rightarrow> tree \<times> frame list" where
  "find_sg dh u i [] = (u, [])"
| "find_sg dh u i (f # fs) =
     (if i > dh (tsize u) then (u, f # fs) else find_sg dh (fill f u) (i + 1) fs)"

text \<open>The alpha-deep height as a function of the balance factor and the size.\<close>

definition adh :: "real \<Rightarrow> nat \<Rightarrow> nat" where
  "adh a n = nat \<lfloor>ln (real n) / ln (1 / a)\<rfloor>"

text \<open>The search of \<^verbatim>\<open>remove\<close> on a tree value, and the tree left by the splice.\<close>

fun locate :: "int \<Rightarrow> tree \<Rightarrow> frame list \<Rightarrow> (tree \<times> frame list) option" where
  "locate k Leaf fs = None"
| "locate k (Br l a x r) fs =
     (if k = x then Some (Br l a x r, fs)
      else if k < x then locate k l (LH a x r # fs)
      else locate k r (RH l a x # fs))"

fun del_min :: "tree \<Rightarrow> (nat \<times> int) \<times> tree" where
  "del_min Leaf = ((0, 0), Leaf)"
| "del_min (Br l a k r) =
     (if l = Leaf then ((a, k), r)
      else (fst (del_min l), Br (snd (del_min l)) a k r))"

fun del_max :: "tree \<Rightarrow> (nat \<times> int) \<times> tree" where
  "del_max Leaf = ((0, 0), Leaf)"
| "del_max (Br l a k r) =
     (if r = Leaf then ((a, k), l)
      else (fst (del_max r), Br l a k (snd (del_max r))))"

fun splice_tree :: "bool \<Rightarrow> tree \<Rightarrow> tree" where
  "splice_tree b Leaf = Leaf"
| "splice_tree b (Br l a k r) =
     (if l \<noteq> Leaf \<and> r \<noteq> Leaf then
        (if b then Br l a (snd (fst (del_min r))) (snd (del_min r))
         else Br (snd (del_max l)) a (snd (fst (del_max l))) r)
      else if l \<noteq> Leaf then l else r)"

fun two_children :: "tree \<Rightarrow> bool" where
  "two_children Leaf = False"
| "two_children (Br l a k r) = (l \<noteq> Leaf \<and> r \<noteq> Leaf)"

text \<open>The address of the node the splice destroys.\<close>

fun victim :: "bool \<Rightarrow> tree \<Rightarrow> nat" where
  "victim b Leaf = 0"
| "victim b (Br l a k r) =
     (if l \<noteq> Leaf \<and> r \<noteq> Leaf then
        (if b then fst (fst (del_min r)) else fst (fst (del_max l)))
      else a)"

section \<open>The invariant\<close>

text \<open>A balance factor the constructor can have stored without the guard being wrong: a
  number strictly between \<open>0.5\<close> and \<open>1\<close>.\<close>

definition in_range :: "double \<Rightarrow> bool" where
  "in_range x = (case x of Num a \<Rightarrow> 1 / 2 < a \<and> a < 1 | _ \<Rightarrow> False)"

text \<open>
  \<open>wf_tree s t\<close>: the object \<open>s\<close> represents the tree \<open>t\<close>. Its root pointer leads to
  \<open>t\<close> in the store, no address occurs twice, every address in use was handed out by the
  allocator, no other address is allocated (nothing leaks), the keys satisfy the BST
  invariant, \<^verbatim>\<open>size\<close> counts the nodes, and the balance factor is in range.
\<close>

definition wf_tree :: "ScapegoatTree \<Rightarrow> tree \<Rightarrow> bool" where
  "wf_tree s t =
     (stored (heap s) t \<and> root_f s = rootp t \<and> distinct (addrs t)
      \<and> list_all (\<lambda>a. a < next_addr s) (addrs t)
      \<and> (\<forall>a. a \<notin> set (addrs t) \<longrightarrow> heap s a = None)
      \<and> bst t \<and> size_f s = tsize t \<and> in_range (alpha s))"

section \<open>The operations on tree values\<close>

text \<open>
  What \<^verbatim>\<open>insert\<close> and \<^verbatim>\<open>remove\<close> do, told on the tree a store holds. The state of the
  object is then the tree together with the fields that steer the operations: the next
  address of the allocator, \<^verbatim>\<open>maxSize\<close> and the toggle \<^verbatim>\<open>replaceWithSucc\<close>.
\<close>

record gstate =
  g_tree :: tree
  g_next :: nat
  g_max :: nat
  g_succ :: bool

text \<open>What \<^verbatim>\<open>size <= alpha * maxSize\<close> computes for a balance factor that is a number.\<close>

definition below :: "fpu \<Rightarrow> real \<Rightarrow> nat \<Rightarrow> nat \<Rightarrow> bool" where
  "below fp a n m = (fp_round fp (real n) \<le> fp_round fp (a * fp_round fp (real m)))"


definition g_insert :: "fpu \<Rightarrow> real \<Rightarrow> gstate \<Rightarrow> int \<Rightarrow> bool \<times> gstate" where
  "g_insert fp a g k =
     (case descend k (g_tree g) [] of
        None \<Rightarrow> (False, g)
      | Some fs \<Rightarrow>
          (let new = Br Leaf (g_next g) k Leaf;
               n = tsize (g_tree g) + 1;
               m = max (g_max g) n
           in if 1 \<le> length fs \<and> fp_deep fp a n < length fs then
                (let sg = find_sg (fp_deep fp a) (fill (hd fs) new) 1 (tl fs)
                 in (True, \<lparr>g_tree = plug (build (nodes (fst sg))) (snd sg),
                             g_next = g_next g + 1,
                             g_max = (if snd sg = [] then n else m),
                             g_succ = g_succ g\<rparr>))
              else (True, \<lparr>g_tree = plug new fs, g_next = g_next g + 1, g_max = m,
                            g_succ = g_succ g\<rparr>)))"

definition g_remove :: "fpu \<Rightarrow> real \<Rightarrow> gstate \<Rightarrow> int \<Rightarrow> bool \<times> gstate" where
  "g_remove fp a g k =
     (case locate k (g_tree g) [] of
        None \<Rightarrow> (False, g)
      | Some (u, fs) \<Rightarrow>
          (let t1 = plug (splice_tree (g_succ g) u) fs;
               n = tsize (g_tree g) - 1;
               b = (g_succ g \<noteq> two_children u)
           in if below fp a n (g_max g) then
                (True, \<lparr>g_tree = build (nodes t1), g_next = g_next g, g_max = n, g_succ = b\<rparr>)
              else (True, \<lparr>g_tree = t1, g_next = g_next g, g_max = g_max g, g_succ = b\<rparr>)))"

fun g_call :: "fpu \<Rightarrow> real \<Rightarrow> gstate \<Rightarrow> call \<Rightarrow> bool \<times> gstate" where
  "g_call fp a g (Insert k) = g_insert fp a g k"
| "g_call fp a g (Remove k) = g_remove fp a g k"

fun g_run :: "fpu \<Rightarrow> real \<Rightarrow> gstate \<Rightarrow> call list \<Rightarrow> bool list \<times> gstate" where
  "g_run fp a g [] = ([], g)"
| "g_run fp a g (c # cs) =
     (case g_call fp a g c of (b, g') \<Rightarrow>
        (case g_run fp a g' cs of (bs, g'') \<Rightarrow> (b # bs, g'')))"

definition g_init :: gstate where
  "g_init = \<lparr>g_tree = Leaf, g_next = 0, g_max = 0, g_succ = True\<rparr>"

text \<open>\<open>models a s g\<close>: the object \<open>s\<close>, with the balance factor \<open>a\<close>, is in the state \<open>g\<close>
  and well formed.\<close>

definition models :: "real \<Rightarrow> ScapegoatTree \<Rightarrow> gstate \<Rightarrow> bool" where
  "models a s g =
     (wf_tree s (g_tree g) \<and> next_addr s = g_next g \<and> maxSize s = g_max g
      \<and> replaceWithSucc s = g_succ g \<and> alpha s = Num a)"

section \<open>Exact arithmetic\<close>

text \<open>
  The floating-point unit that makes no error: it returns the exact
  \<open>\<lfloor>log\<^bsub>1/\<alpha>\<^esub> n\<rfloor>\<close> and rounds nothing. \<open>ginv a g\<close> is what keeps the tree shallow
  under exact arithmetic: \<^verbatim>\<open>maxSize\<close> bounds the size from above and, scaled by the
  balance factor, from below, and the tree is no higher than the alpha-deep height of
  \<^verbatim>\<open>maxSize\<close> allows.
\<close>

definition exact_fpu :: fpu where
  "exact_fpu = Abs_fpu (adh, \<lambda>x. x)"



section \<open>Runs from a freshly constructed tree\<close>

text \<open>A tree is constructed with the balance factor \<open>x\<close> and the calls \<open>cs\<close> are made on
  it in order, on the floating-point unit \<open>fp\<close>; the result is \<open>None\<close> when the
  constructor throws or a call has no defined result.\<close>

definition fresh_run ::
  "fpu \<Rightarrow> double \<Rightarrow> call list \<Rightarrow> (bool list \<times> ScapegoatTree) option" where
  "fresh_run fp x cs = (case ScapegoatTree_ctor x of Inl e \<Rightarrow> None | Inr s \<Rightarrow> run fp s cs)"

text \<open>
  Membership in the words of the specification, read off a trace of calls paired with
  the values they returned: the successful calls on the key \<open>k\<close>, in order, and whether
  the most recent of them is an insert (so that no successful remove follows the most
  recent successful insert).
\<close>

definition successful :: "int \<Rightarrow> (call \<times> bool) list \<Rightarrow> call list" where
  "successful k tr = map fst (filter (\<lambda>(c, b). b \<and> (c = Insert k \<or> c = Remove k)) tr)"

definition present :: "int \<Rightarrow> (call \<times> bool) list \<Rightarrow> bool" where
  "present k tr = (successful k tr \<noteq> [] \<and> last (successful k tr) = Insert k)"


text \<open>Seven inserts, for the balance factor \<open>0.58\<close>, after which the keys \<open>50, 40, 30\<close>
  are on a left spine below the root \<open>100\<close>; inserting \<open>20\<close> next triggers a rebuild.\<close>

definition calls7 :: "call list" where
  "calls7 = map Insert [100, 50, 150, 40, 125, 175, 30]"

text \<open>Whether a call is a removal that finds its key in a node with two children (the
  test of lines 105--115 of \<^verbatim>\<open>remove\<close>).\<close>

definition two_child_removal :: "ScapegoatTree \<Rightarrow> call \<Rightarrow> bool" where
  "two_child_removal s c =
     (case c of
        Insert k \<Rightarrow> False
      | Remove k \<Rightarrow>
          (case remove_loop (heap s) k None (root_f s) of
             Some (Some (prev, cur)) \<Rightarrow>
               (case load (heap s) cur of
                  Some cn \<Rightarrow> left cn \<noteq> None \<and> right cn \<noteq> None
                | None \<Rightarrow> False)
           | _ \<Rightarrow> False))"

text \<open>At every node the sizes of the two children differ by at most one, the left child
  being the larger.\<close>

fun within_one :: "tree \<Rightarrow> bool" where
  "within_one Leaf = True"
| "within_one (Br l a k r) =
     (tsize r \<le> tsize l \<and> tsize l \<le> tsize r + 1 \<and> within_one l \<and> within_one r)"

text \<open>A store for trying \<^verbatim>\<open>flatten\<close> and \<^verbatim>\<open>buildTree\<close>: the keys \<open>10, 20, 30\<close> on a right
  spine at the addresses \<open>0, 1, 2\<close>, and a dummy node at the address \<open>3\<close>.\<close>

definition spine3 :: heap where
  "spine3 = Map.empty(0 \<mapsto> \<lparr>key = 10, left = None, right = Some 1\<rparr>,
                      1 \<mapsto> \<lparr>key = 20, left = None, right = Some 2\<rparr>,
                      2 \<mapsto> \<lparr>key = 30, left = None, right = None\<rparr>,
                      3 \<mapsto> \<lparr>key = -1, left = None, right = None\<rparr>)"

section \<open>Refinement: the operations on the tree a store holds\<close>

lemma tsize_addrs: "tsize t = length (addrs t)"
  by (induction t) auto

lemma addrs_nodes: "addrs t = map fst (nodes t)"
  by (induction t) auto

lemma keys_nodes: "keys t = map snd (nodes t)"
  by (induction t) auto

lemma stored_cong:
  "stored h t \<Longrightarrow> (\<And>a. a \<in> set (addrs t) \<Longrightarrow> h' a = h a) \<Longrightarrow> stored h' t"
  by (induction t) auto

lemma rootp_in_addrs: "rootp t = Some a \<Longrightarrow> a \<in> set (addrs t)"
  by (cases t) auto

lemma getSubtreeSize_stored:
  "stored h t \<Longrightarrow> getSubtreeSize h (rootp t) = Some (tsize t)"
  by (induction t) (auto simp: getSubtreeSize.simps)

lemma bst_sorted: "bst t = sorted_wrt (<) (keys t)"
  by (induction t) (fastforce simp: sorted_wrt_append list_all_iff)+

lemma search_loop_stored:
  "stored h t \<Longrightarrow> bst t \<Longrightarrow> search_loop h k (rootp t) = Some (k \<in> set (keys t))"
proof (induction t)
  case Leaf
  then show ?case by (simp add: search_loop.simps)
next
  case (Br l a x r)
  then show ?case
    by (subst search_loop.simps) (auto simp: list_all_iff)
qed

lemma chain_cong:
  "chain h p xs q \<Longrightarrow> (\<And>a. a \<in> set (map fst xs) \<Longrightarrow> h' a = h a) \<Longrightarrow> chain h' p xs q"
  by (induction xs arbitrary: p) (auto split: option.splits)

lemma chain_nodes_cong:
  "chain h p (nodes t) q \<Longrightarrow> (\<And>a. a \<in> set (addrs t) \<Longrightarrow> h' a = h a)
   \<Longrightarrow> chain h' p (nodes t) q"
  by (rule chain_cong) (auto simp: addrs_nodes)

lemma chain_append:
  "chain h p (xs @ ys) q = (\<exists>m. chain h p xs m \<and> chain h m ys q)"
  by (induction xs arbitrary: p) (auto split: option.splits)

lemma flatten_stored:
  "stored h t \<Longrightarrow> distinct (addrs t) \<Longrightarrow>
   \<exists>q h'. flatten h (rootp t) lh = Some (q, h') \<and> chain h' q (nodes t) lh
     \<and> (\<forall>a. a \<notin> set (addrs t) \<longrightarrow> h' a = h a) \<and> dom h' = dom h"
proof (induction t arbitrary: h lh)
  case Leaf
  then show ?case by (simp add: flatten.simps)
next
  case (Br l a k r)
  let ?n = "\<lparr>key = k, left = rootp l, right = rootp r\<rparr>"
  from Br.prems have ha: "h a = Some ?n" and sl: "stored h l" and sr: "stored h r"
    and dl: "distinct (addrs l)" and dr: "distinct (addrs r)"
    and al: "a \<notin> set (addrs l)" and ar: "a \<notin> set (addrs r)"
    and lr: "set (addrs l) \<inter> set (addrs r) = {}" by auto
  from Br.IH(2)[OF sr dr, of lh] obtain q1 h1 where
    f1: "flatten h (rootp r) lh = Some (q1, h1)" and c1: "chain h1 q1 (nodes r) lh"
    and o1: "\<forall>a. a \<notin> set (addrs r) \<longrightarrow> h1 a = h a" and d1: "dom h1 = dom h" by blast
  have h1a: "h1 a = Some ?n" using o1 ar ha by simp
  let ?h2 = "h1(a \<mapsto> \<lparr>key = k, left = rootp l, right = q1\<rparr>)"
  have sl2: "stored ?h2 l"
    using sl o1 al lr by (intro stored_cong[OF sl]) auto
  from Br.IH(1)[OF sl2 dl, of "Some a"] obtain q h3 where
    f3: "flatten ?h2 (rootp l) (Some a) = Some (q, h3)" and c3: "chain h3 q (nodes l) (Some a)"
    and o3: "\<forall>b. b \<notin> set (addrs l) \<longrightarrow> h3 b = ?h2 b" and d3: "dom h3 = dom ?h2" by blast
  have fl: "flatten h (rootp (Br l a k r)) lh = Some (q, h3)"
    by (subst flatten.simps) (simp add: ha f1 set_right_def h1a f3)
  have c1': "chain h3 q1 (nodes r) lh"
    using o3 ar lr by (intro chain_nodes_cong[OF c1]) auto
  have h3a: "h3 a = Some \<lparr>key = k, left = rootp l, right = q1\<rparr>" using o3 al by simp
  have ch: "chain h3 q (nodes (Br l a k r)) lh"
    using c3 c1' h3a by (auto simp: chain_append)
  have out: "\<forall>b. b \<notin> set (addrs (Br l a k r)) \<longrightarrow> h3 b = h b"
    using o3 o1 by auto
  have dm: "dom h3 = dom h" using d3 d1 h1a by auto
  show ?case using fl ch out dm by blast
qed

lemma build_Nil [simp]: "build [] = Leaf"
  by (simp add: build.simps)

lemma build_nodes: "nodes (build xs) = xs"
proof (induction xs rule: build.induct)
  case (1 xs)
  show ?case
  proof (cases "xs = []")
    case True
    then show ?thesis by simp
  next
    case False
    then have lt: "length xs div 2 < length xs" by (cases xs) auto
    have "xs = take (length xs div 2) xs @ xs ! (length xs div 2) # drop (Suc (length xs div 2)) xs"
      using lt by (simp add: id_take_nth_drop[symmetric])
    then show ?thesis using 1 False by (subst build.simps) simp
  qed
qed

lemma half_ceil: "0 < n \<Longrightarrow> nat \<lceil>(real n - 1.0) / 2.0\<rceil> = n div 2"
  by (simp add: ceiling_eq_iff nat_eq_iff; linarith)

lemma half_floor: "0 < n \<Longrightarrow> nat \<lfloor>(real n - 1.0) / 2.0\<rfloor> = (n - 1) div 2"
  by (simp add: floor_eq_iff nat_eq_iff; linarith)

lemma addrs_build: "addrs (build xs) = map fst xs"
  by (simp add: addrs_nodes build_nodes)

lemma Node_upd_eq:
  "n\<lparr>left := x, right := y\<rparr> = \<lparr>key = key n, left = x, right = y\<rparr>"
  by (cases n) simp

lemma buildTree_chain:
  "chain h p xs (Some b) \<Longrightarrow> h b = Some bn \<Longrightarrow> distinct (map fst xs @ [b]) \<Longrightarrow>
   \<exists>h'. buildTree h (length xs) p = Some (Some b, h')
      \<and> h' b = Some (bn\<lparr>left := rootp (build xs)\<rparr>) \<and> stored h' (build xs)
      \<and> (\<forall>a. a \<notin> set (map fst xs) \<and> a \<noteq> b \<longrightarrow> h' a = h a) \<and> dom h' = dom h"
proof (induction xs arbitrary: h p b bn rule: length_induct)
  case (1 xs)
  show ?case
  proof (cases "xs = []")
    case True
    with "1.prems" show ?thesis
      by (subst buildTree.simps) (auto simp: set_left_def)
  next
    case False
    define n where "n = length xs"
    define m where "m = n div 2"
    define xs1 where "xs1 = take m xs"
    define c where "c = xs ! m"
    define xs2 where "xs2 = drop (Suc m) xs"
    have npos: "0 < n" using False by (simp add: n_def)
    have mlt: "m < length xs" using npos by (simp add: m_def n_def)
    have xs: "xs = xs1 @ c # xs2"
      unfolding xs1_def c_def xs2_def using mlt by (simp add: id_take_nth_drop[symmetric])
    have l1: "length xs1 = m" using mlt by (simp add: xs1_def)
    have l2: "length xs2 = (n - 1) div 2" using mlt by (simp add: xs2_def m_def n_def; linarith)
    have lt1: "length xs1 < length xs" using l1 mlt by simp
    have lt2: "length xs2 < length xs" by (simp add: xs2_def) (use mlt in linarith)
    from "1.prems"(1) obtain cn where
      c1: "chain h p xs1 (Some (fst c))" and hc: "h (fst c) = Some cn" and kc: "key cn = snd c"
      and c2: "chain h (right cn) xs2 (Some b)"
      by (subst (asm) xs) (auto simp: chain_append split: option.splits)
    have dist: "distinct (map fst xs1)" "distinct (map fst xs2)" "fst c \<notin> set (map fst xs1)"
      "fst c \<notin> set (map fst xs2)" "b \<notin> set (map fst xs1)" "b \<notin> set (map fst xs2)" "b \<noteq> fst c"
      "set (map fst xs1) \<inter> set (map fst xs2) = {}"
    proof -
      have "distinct (map fst (xs1 @ c # xs2) @ [b])"
        by (rule subst[OF xs, of "\<lambda>z. distinct (map fst z @ [b])"]) (rule "1.prems"(3))
      then show "distinct (map fst xs1)" "distinct (map fst xs2)" "fst c \<notin> set (map fst xs1)"
      "fst c \<notin> set (map fst xs2)" "b \<notin> set (map fst xs1)" "b \<notin> set (map fst xs2)" "b \<noteq> fst c"
      "set (map fst xs1) \<inter> set (map fst xs2) = {}"
        by (auto simp del: set_map)
    qed
    have d1: "distinct (map fst xs1 @ [fst c])" using dist by (simp del: set_map)
    from "1.IH"[rule_format, OF lt1 c1 hc d1] obtain h1 where
      b1: "buildTree h (length xs1) p = Some (Some (fst c), h1)"
      and h1c: "h1 (fst c) = Some (cn\<lparr>left := rootp (build xs1)\<rparr>)"
      and s1: "stored h1 (build xs1)"
      and o1: "\<forall>a. a \<notin> set (map fst xs1) \<and> a \<noteq> fst c \<longrightarrow> h1 a = h a"
      and dm1: "dom h1 = dom h" by blast
    have c2': "chain h1 (right cn) xs2 (Some b)"
      using o1 dist by (intro chain_cong[OF c2]) (auto simp del: set_map)
    have h1b: "h1 b = Some bn" using o1 dist "1.prems"(2) by (simp del: set_map)
    have d2: "distinct (map fst xs2 @ [b])" using dist by (simp del: set_map)
    from "1.IH"[rule_format, OF lt2 c2' h1b d2] obtain h2 where
      b2: "buildTree h1 (length xs2) (right cn) = Some (Some b, h2)"
      and h2b: "h2 b = Some (bn\<lparr>left := rootp (build xs2)\<rparr>)"
      and s2: "stored h2 (build xs2)"
      and o2: "\<forall>a. a \<notin> set (map fst xs2) \<and> a \<noteq> b \<longrightarrow> h2 a = h1 a"
      and dm2: "dom h2 = dom h1" by blast
    have h2c: "h2 (fst c) = Some (cn\<lparr>left := rootp (build xs1)\<rparr>)"
      using o2 dist h1c by (simp del: set_map)
    define h4 where "h4 = h2(fst c \<mapsto> \<lparr>key = snd c, left = rootp (build xs1), right = rootp (build xs2)\<rparr>,
                            b \<mapsto> bn\<lparr>left := Some (fst c)\<rparr>)"
    have len0: "length xs \<noteq> 0" using False by simp
    have hc1: "nat \<lceil>(real (length xs) - 1.0) / 2.0\<rceil> = length xs1"
      using half_ceil[OF npos] by (simp add: n_def m_def l1)
    have hf1: "nat \<lfloor>(real (length xs) - 1.0) / 2.0\<rfloor> = length xs2"
      using half_floor[OF npos] by (simp add: n_def l2)
    have rec: "cn\<lparr>left := rootp (build xs1), right := rootp (build xs2)\<rparr>
        = \<lparr>key = snd c, left = rootp (build xs1), right = rootp (build xs2)\<rparr>"
      by (simp add: Node_upd_eq kc)
    have bt: "buildTree h (length xs) p = Some (Some b, h4)"
      apply (subst buildTree.simps)
      apply (simp only: len0 if_False Let_def hc1 hf1 b1)
      apply (simp add: load_def h1c b2 h2b set_right_def h2c set_left_def h4_def rec dist(7))
      done
    have bx: "build xs = Br (build xs1) (fst c) (snd c) (build xs2)"
      using False by (subst build.simps) (simp add: xs1_def xs2_def c_def m_def n_def)
    have s1': "stored h4 (build xs1)"
      using o2 dist by (intro stored_cong[OF s1]) (auto simp: h4_def addrs_build simp del: set_map)
    have s2': "stored h4 (build xs2)"
      using dist by (intro stored_cong[OF s2]) (auto simp: h4_def addrs_build simp del: set_map)
    have st: "stored h4 (build xs)"
      using s1' s2' dist(7) by (simp add: bx h4_def)
    have hb: "h4 b = Some (bn\<lparr>left := rootp (build xs)\<rparr>)"
      by (simp add: bx h4_def)
    have out: "\<forall>a. a \<notin> set (map fst xs) \<and> a \<noteq> b \<longrightarrow> h4 a = h a"
      using o1 o2 by (subst xs) (auto simp: h4_def simp del: set_map)
    have dm: "dom h4 = dom h"
      using dm1 dm2 hc "1.prems"(2) by (auto simp: h4_def)
    show ?thesis using bt st hb out dm by blast
  qed
qed

lemma path_of_Cons [simp]: "path_of (f # fs) = Some (faddr f) # path_of fs"
  by (simp add: path_of_def)

lemma path_of_Nil [simp]: "path_of [] = [None]"
  by (simp add: path_of_def)

lemma prev_of_simps [simp]: "prev_of [] = None" "prev_of (f # fs) = Some (faddr f)"
  by (simp_all add: prev_of_def)

lemma rootp_fill [simp]: "rootp (fill f u) = Some (faddr f)"
  by (cases f) auto

lemma plug_append: "plug u (fs @ gs) = plug (plug u fs) gs"
  by (induction fs arbitrary: u) auto

lemma nodes_fill: "nodes (fill f u) = before [f] @ nodes u @ after [f]"
  by (cases f) auto

lemma nodes_plug: "nodes (plug u fs) = before fs @ nodes u @ after fs"
proof (induction fs arbitrary: u)
  case Nil
  then show ?case by simp
next
  case (Cons f fs)
  then show ?case by (cases f) auto
qed

lemma addrs_plug: "addrs (plug u fs) = map fst (before fs) @ addrs u @ map fst (after fs)"
  by (simp add: addrs_nodes nodes_plug)

lemma keys_plug: "keys (plug u fs) = map snd (before fs) @ keys u @ map snd (after fs)"
  by (simp add: keys_nodes nodes_plug)

lemma tsize_plug: "tsize (plug u fs) = tsize u + length (caddrs fs)"
  by (simp add: tsize_addrs addrs_plug caddrs_def)

lemma set_addrs_plug: "set (addrs (plug u fs)) = set (addrs u) \<union> set (caddrs fs)"
  by (auto simp: addrs_plug caddrs_def)

lemma distinct_plug:
  "distinct (addrs (plug u fs)) =
     (distinct (addrs u) \<and> distinct (caddrs fs) \<and> set (addrs u) \<inter> set (caddrs fs) = {})"
  by (auto simp: addrs_plug caddrs_def)

lemma rootp_plug: "rootp (plug u fs) = (if fs = [] then rootp u else Some (faddr (last fs)))"
  by (induction fs arbitrary: u) auto

lemma stored_plug: "stored h (plug u fs) = (stored h u \<and> stored_ctx h (rootp u) fs)"
proof (induction fs arbitrary: u)
  case Nil
  then show ?case by simp
next
  case (Cons f fs)
  then show ?case by (cases f) auto
qed

lemma caddrs_Cons:
  "set (caddrs (f # fs)) = insert (faddr f) (set (addrs (fill f Leaf)) \<union> set (caddrs fs))"
  by (cases f) (auto simp: caddrs_def addrs_nodes)

lemma caddrs_LH: "caddrs (LH a k r # fs) = map fst (before fs) @ a # addrs r @ map fst (after fs)"
  by (simp add: caddrs_def addrs_nodes)

lemma caddrs_RH: "caddrs (RH l a k # fs) = map fst (before fs) @ addrs l @ a # map fst (after fs)"
  by (simp add: caddrs_def addrs_nodes)

lemma stored_ctx_cong:
  "stored_ctx h q fs \<Longrightarrow> (\<And>a. a \<in> set (caddrs fs) \<Longrightarrow> h' a = h a) \<Longrightarrow> stored_ctx h' q fs"
proof (induction fs arbitrary: q)
  case Nil
  then show ?case by simp
next
  case (Cons f fs)
  show ?case
  proof (cases f)
    case (LH a k r)
    have "stored h' r" using Cons.prems LH
      by (intro stored_cong[of h r h']) (auto simp: caddrs_LH)
    moreover have "stored_ctx h' (Some a) fs" using Cons.prems LH
      by (intro Cons.IH) (auto simp: caddrs_LH caddrs_def)
    moreover have "h' a = h a" using Cons.prems(2)[of a] LH by (simp add: caddrs_LH)
    ultimately show ?thesis using Cons.prems(1) LH by simp
  next
    case (RH l a k)
    have "stored h' l" using Cons.prems RH
      by (intro stored_cong[of h l h']) (auto simp: caddrs_RH)
    moreover have "stored_ctx h' (Some a) fs" using Cons.prems RH
      by (intro Cons.IH) (auto simp: caddrs_RH caddrs_def)
    moreover have "h' a = h a" using Cons.prems(2)[of a] RH by (simp add: caddrs_RH)
    ultimately show ?thesis using Cons.prems(1) RH by simp
  qed
qed

text \<open>Redirecting the slot of the hole.\<close>

lemma stored_ctx_slot:
  assumes "stored_ctx h q (f # fs)" and "distinct (caddrs (f # fs))"
    and "h' (faddr f) = Some (set_slot f q')"
    and "\<And>a. a \<in> set (caddrs (f # fs)) \<Longrightarrow> a \<noteq> faddr f \<Longrightarrow> h' a = h a"
  shows "stored_ctx h' q' (f # fs)"
proof (cases f)
  case (LH a k r)
  have "stored h' r" using assms LH
    by (intro stored_cong[of h r h']) (auto simp: caddrs_LH)
  moreover have "stored_ctx h' (Some a) fs" using assms LH
    by (intro stored_ctx_cong[of h "Some a" fs h']) (auto simp: caddrs_LH caddrs_def)
  ultimately show ?thesis using assms(3) LH by (simp add: set_slot_def)
next
  case (RH l a k)
  have "stored h' l" using assms RH
    by (intro stored_cong[of h l h']) (auto simp: caddrs_RH)
  moreover have "stored_ctx h' (Some a) fs" using assms RH
    by (intro stored_ctx_cong[of h "Some a" fs h']) (auto simp: caddrs_RH caddrs_def)
  ultimately show ?thesis using assms(3) RH by (simp add: set_slot_def)
qed

lemma flatten_build:
  assumes st: "stored h u" and di: "distinct (addrs u)" and fr: "d \<notin> set (addrs u)"
    and hd: "h d = Some dn"
  shows "\<exists>q h1 h2. flatten h (rootp u) (Some d) = Some (q, h1)
      \<and> buildTree h1 (tsize u) q = Some (Some d, h2)
      \<and> h2 d = Some (dn\<lparr>left := rootp (build (nodes u))\<rparr>)
      \<and> stored h2 (build (nodes u))
      \<and> (\<forall>a. a \<notin> set (addrs u) \<and> a \<noteq> d \<longrightarrow> h2 a = h a) \<and> dom h2 = dom h"
proof -
  from flatten_stored[OF st di, of "Some d"] obtain q h1 where
    f: "flatten h (rootp u) (Some d) = Some (q, h1)" and c: "chain h1 q (nodes u) (Some d)"
    and o1: "\<forall>a. a \<notin> set (addrs u) \<longrightarrow> h1 a = h a" and d1: "dom h1 = dom h" by blast
  have h1d: "h1 d = Some dn" using o1 fr hd by simp
  have dd: "distinct (map fst (nodes u) @ [d])" using di fr by (simp add: addrs_nodes del: set_map)
  from buildTree_chain[OF c h1d dd] obtain h2 where
    b: "buildTree h1 (length (nodes u)) q = Some (Some d, h2)"
    and h2d: "h2 d = Some (dn\<lparr>left := rootp (build (nodes u))\<rparr>)"
    and s2: "stored h2 (build (nodes u))"
    and o2: "\<forall>a. a \<notin> set (map fst (nodes u)) \<and> a \<noteq> d \<longrightarrow> h2 a = h1 a"
    and d2: "dom h2 = dom h1" by blast
  have len: "length (nodes u) = tsize u" by (simp add: tsize_addrs addrs_nodes)
  have o: "\<forall>a. a \<notin> set (addrs u) \<and> a \<noteq> d \<longrightarrow> h2 a = h a"
    using o1 o2 by (simp add: addrs_nodes del: set_map)
  have b': "buildTree h1 (tsize u) q = Some (Some d, h2)" using b len by simp
  show ?thesis
    apply (rule exI[of _ q], rule exI[of _ h1], rule exI[of _ h2])
    using f b' h2d s2 o d1 d2 by simp
qed

lemma rebuild_root:
  assumes st: "stored (heap s) u" and di: "distinct (addrs u)"
    and fr: "next_addr s \<notin> set (addrs u)"
  shows "\<exists>h'. rebuild s \<lparr>scapegoat = rootp u, parent = None, treeSize = tsize u\<rparr> =
        Some (s\<lparr>heap := h', root_f := rootp (build (nodes u)), maxSize := size_f s\<rparr>)
      \<and> stored h' (build (nodes u))
      \<and> (\<forall>a. a \<notin> set (addrs u) \<and> a \<noteq> next_addr s \<longrightarrow> h' a = heap s a)
      \<and> h' (next_addr s) = None"
proof -
  let ?d = "next_addr s"
  let ?dn = "\<lparr>key = -1, left = None, right = None\<rparr>"
  let ?h0 = "(heap s)(?d \<mapsto> ?dn)"
  have st0: "stored ?h0 u" using fr by (intro stored_cong[OF st]) auto
  from flatten_build[OF st0 di fr, of ?dn] obtain q h1 h2 where
    f: "flatten ?h0 (rootp u) (Some ?d) = Some (q, h1)"
    and b: "buildTree h1 (tsize u) q = Some (Some ?d, h2)"
    and h2d: "h2 ?d = Some (?dn\<lparr>left := rootp (build (nodes u))\<rparr>)"
    and s2: "stored h2 (build (nodes u))"
    and o: "\<forall>a. a \<notin> set (addrs u) \<and> a \<noteq> ?d \<longrightarrow> h2 a = ?h0 a" by auto
  let ?h' = "h2(?d := None)"
  have r: "rebuild s \<lparr>scapegoat = rootp u, parent = None, treeSize = tsize u\<rparr> =
        Some (s\<lparr>heap := ?h', root_f := rootp (build (nodes u)), maxSize := size_f s\<rparr>)"
    by (simp add: rebuild_def f b load_def h2d delete_node_def)
  have s': "stored ?h' (build (nodes u))"
    using fr by (intro stored_cong[OF s2]) (auto simp: addrs_build addrs_nodes[symmetric])
  show ?thesis using r s' o by (intro exI[of _ ?h']) auto
qed

lemma rebuild_inner:
  assumes st: "stored (heap s) (plug u (f # fs))" and di: "distinct (addrs (plug u (f # fs)))"
    and fr: "next_addr s \<notin> set (addrs (plug u (f # fs)))"
    and ne: "u \<noteq> Leaf"
  shows "\<exists>h'. rebuild s \<lparr>scapegoat = rootp u, parent = Some (faddr f), treeSize = tsize u\<rparr> =
        Some (s\<lparr>heap := h'\<rparr>)
      \<and> stored h' (plug (build (nodes u)) (f # fs))
      \<and> (\<forall>a. a \<notin> set (addrs (plug u (f # fs))) \<and> a \<noteq> next_addr s \<longrightarrow> h' a = heap s a)
      \<and> h' (next_addr s) = None"
proof -
  let ?d = "next_addr s"
  let ?dn = "\<lparr>key = -1, left = None, right = None\<rparr>"
  let ?h0 = "(heap s)(?d \<mapsto> ?dn)"
  let ?b = "build (nodes u)"
  from st have su: "stored (heap s) u" and sc: "stored_ctx (heap s) (rootp u) (f # fs)"
    by (simp_all add: stored_plug del: plug.simps)
  from di have du: "distinct (addrs u)" and dc: "distinct (caddrs (f # fs))"
    and uc: "set (addrs u) \<inter> set (caddrs (f # fs)) = {}"
    by (simp_all add: distinct_plug del: plug.simps)
  from fr have fru: "?d \<notin> set (addrs u)" and frc: "?d \<notin> set (caddrs (f # fs))"
    by (simp_all add: set_addrs_plug del: plug.simps)
  have fa: "faddr f \<in> set (caddrs (f # fs))" by (simp add: caddrs_Cons)
  have fau: "faddr f \<notin> set (addrs u)" using fa uc by auto
  have fad: "faddr f \<noteq> ?d" using fa frc by auto
  have st0: "stored ?h0 u" using fru by (intro stored_cong[OF su]) auto
  from flatten_build[OF st0 du fru, of ?dn] obtain q h1 h2 where
    fl: "flatten ?h0 (rootp u) (Some ?d) = Some (q, h1)"
    and b: "buildTree h1 (tsize u) q = Some (Some ?d, h2)"
    and h2d: "h2 ?d = Some (?dn\<lparr>left := rootp ?b\<rparr>)"
    and s2: "stored h2 ?b"
    and o: "\<forall>a. a \<notin> set (addrs u) \<and> a \<noteq> ?d \<longrightarrow> h2 a = ?h0 a" by auto
  have hf: "heap s (faddr f) = Some (set_slot f (rootp u))"
    using sc by (cases f) (auto simp: set_slot_def)
  have h2f: "h2 (faddr f) = Some (set_slot f (rootp u))"
    using o fau fad hf by simp
  obtain c where c: "rootp u = Some c" "c \<in> set (addrs u)"
    using ne by (cases u) auto
  have side: "(rootp u = left (set_slot f (rootp u))) = (case f of LH a k r \<Rightarrow> True | RH l a k \<Rightarrow> False)"
  proof (cases f)
    case (LH a k r)
    then show ?thesis by (simp add: set_slot_def)
  next
    case (RH l a k)
    have "rootp l \<noteq> Some c"
    proof
      assume "rootp l = Some c"
      then have "c \<in> set (addrs l)" by (rule rootp_in_addrs)
      then have "c \<in> set (caddrs (f # fs))" using RH by (simp add: caddrs_RH)
      then show False using c uc by auto
    qed
    then show ?thesis using RH c by (simp add: set_slot_def)
  qed
  let ?h3 = "h2(faddr f \<mapsto> set_slot f (rootp ?b))"
  let ?h' = "?h3(?d := None)"
  have r: "rebuild s \<lparr>scapegoat = rootp u, parent = Some (faddr f), treeSize = tsize u\<rparr> =
        Some (s\<lparr>heap := ?h'\<rparr>)"
    using fad side h2f
    by (cases f) (simp_all add: rebuild_def fl b load_def h2d delete_node_def
        set_left_def set_right_def set_slot_def)
  have sb: "stored ?h' ?b"
    using fru fau by (intro stored_cong[OF s2]) (auto simp: addrs_build addrs_nodes[symmetric])
  have sc': "stored_ctx ?h' (rootp ?b) (f # fs)"
  proof (rule stored_ctx_slot[OF sc dc])
    show "?h' (faddr f) = Some (set_slot f (rootp ?b))" using fad by simp
  next
    fix a assume "a \<in> set (caddrs (f # fs))" "a \<noteq> faddr f"
    then show "?h' a = heap s a" using o uc frc by auto
  qed
  have s': "stored ?h' (plug ?b (f # fs))"
    using sb sc' by (simp add: stored_plug del: plug.simps)
  have o': "\<forall>a. a \<notin> set (addrs (plug u (f # fs))) \<and> a \<noteq> ?d \<longrightarrow> ?h' a = heap s a"
    using o fa by (auto simp: set_addrs_plug simp del: plug.simps)
  show ?thesis using r s' o' by (intro exI[of _ ?h']) auto
qed

lemma insert_loop_stored:
  "stored h u \<Longrightarrow>
   insert_loop h k (path_of fs) (prev_of fs) (rootp u) =
     Some (map_option (\<lambda>fs'. (path_of fs', prev_of fs')) (descend k u fs))"
proof (induction u arbitrary: fs)
  case Leaf
  then show ?case by (subst insert_loop.simps) simp
next
  case (Br l a x r)
  from Br.prems have sl: "stored h l" and sr: "stored h r" by auto
  show ?case
    using Br.IH(1)[OF sl, of "LH a x r # fs"] Br.IH(2)[OF sr, of "RH l a x # fs"] Br.prems
    by (subst insert_loop.simps) simp
qed

lemma descend_Some:
  "descend k u fs = Some fs' \<Longrightarrow>
     \<exists>gs. fs' = gs @ fs \<and> plug Leaf gs = u \<and> list_all (fits k) gs"
proof (induction u arbitrary: fs fs')
  case Leaf
  then show ?case by simp
next
  case (Br l a x r)
  show ?case
  proof (cases "k < x")
    case True
    with Br.prems have "descend k l (LH a x r # fs) = Some fs'" by simp
    from Br.IH(1)[OF this] obtain gs where
      gs: "fs' = gs @ LH a x r # fs" "plug Leaf gs = l" "list_all (fits k) gs" by blast
    show ?thesis
      using gs True by (intro exI[of _ "gs @ [LH a x r]"]) (simp add: plug_append)
  next
    case False
    with Br.prems have kx: "x < k" and "descend k r (RH l a x # fs) = Some fs'"
      by (auto split: if_splits)
    from Br.IH(2)[OF this(2)] obtain gs where
      gs: "fs' = gs @ RH l a x # fs" "plug Leaf gs = r" "list_all (fits k) gs" by blast
    show ?thesis
      using gs kx by (intro exI[of _ "gs @ [RH l a x]"]) (simp add: plug_append)
  qed
qed

lemma descend_None: "bst u \<Longrightarrow> (descend k u fs = None) = (k \<in> set (keys u))"
  by (induction u arbitrary: fs) (auto simp: list_all_iff)

lemma slot_side:
  assumes "u \<noteq> Leaf" and "set (addrs u) \<inter> set (caddrs (f # fs)) = {}"
  shows "(left (set_slot f (rootp u)) = rootp u) = (case f of LH a k r \<Rightarrow> True | RH l a k \<Rightarrow> False)"
proof -
  obtain c where c: "rootp u = Some c" "c \<in> set (addrs u)"
    using assms(1) by (cases u) auto
  show ?thesis
  proof (cases f)
    case (LH a k r)
    then show ?thesis by (simp add: set_slot_def)
  next
    case (RH l a k)
    have "rootp l \<noteq> Some c"
    proof
      assume "rootp l = Some c"
      then have "c \<in> set (addrs l)" by (rule rootp_in_addrs)
      then have "c \<in> set (caddrs (f # fs))" using RH by (simp add: caddrs_RH)
      then show False using c assms(2) by auto
    qed
    then show ?thesis using RH c by (simp add: set_slot_def)
  qed
qed

lemma stored_ctx_head: "stored_ctx h q (f # fs) \<Longrightarrow> h (faddr f) = Some (set_slot f q)"
  by (cases f) (auto simp: set_slot_def)

lemma getAlphaDeepHeight_adh:
  "alpha s = Num a \<Longrightarrow> 0 < a \<Longrightarrow> a < 1 \<Longrightarrow> 0 < n \<Longrightarrow>
   getAlphaDeepHeight fp s n = Some (fp_deep fp a n)"
  by (simp add: getAlphaDeepHeight_def)

lemma tsize_pos: "u \<noteq> Leaf \<Longrightarrow> 0 < tsize u"
  by (cases u) auto

lemma fill_not_Leaf [simp]: "fill f u \<noteq> Leaf"
  by (cases f) auto

lemma stack_path_of:
  "stack_top (path_of gs) = Some (prev_of gs)"
  "stack_pop (path_of gs) = Some (case gs of [] \<Rightarrow> [] | g # gs' \<Rightarrow> path_of gs')"
  by (cases gs; simp add: stack_top_def stack_pop_def)+

lemma stack_Cons [simp]: "stack_top (x # xs) = Some x" "stack_pop (x # xs) = Some xs"
  by (simp_all add: stack_top_def stack_pop_def)

lemma sibling_size:
  assumes "stored_ctx h q (f # fs)"
  shows "getSubtreeSize h (case f of LH a k r \<Rightarrow> right (set_slot f q) | RH l a k \<Rightarrow> left (set_slot f q))
       = Some (tsize (sibling f))"
  using assms by (cases f) (auto simp: set_slot_def getSubtreeSize_stored)

lemma tsize_fill: "tsize (fill f u) = tsize u + (1 + tsize (sibling f))"
  by (cases f) auto

lemma findScapegoat_loop_stored:
  assumes "stored (heap s) (plug u fs)" and "distinct (addrs (plug u fs))" and "u \<noteq> Leaf"
    and "alpha s = Num a" and "0 < a" and "a < 1"
  shows "findScapegoat_loop fp s (case fs of [] \<Rightarrow> [] | f # gs \<Rightarrow> path_of gs) (rootp u) (prev_of fs)
           (tsize u) i =
         Some \<lparr>scapegoat = rootp (fst (find_sg (fp_deep fp a) u i fs)),
               parent = prev_of (snd (find_sg (fp_deep fp a) u i fs)),
               treeSize = tsize (fst (find_sg (fp_deep fp a) u i fs))\<rparr>"
  using assms
proof (induction fs arbitrary: u i)
  case Nil
  then show ?case by (subst findScapegoat_loop.simps) simp
next
  case (Cons f gs)
  from Cons.prems have su: "stored (heap s) u" and sc: "stored_ctx (heap s) (rootp u) (f # gs)"
    by (simp_all add: stored_plug del: plug.simps)
  from Cons.prems have uc: "set (addrs u) \<inter> set (caddrs (f # gs)) = {}"
    by (simp add: distinct_plug del: plug.simps)
  have dh: "getAlphaDeepHeight fp s (tsize u) = Some (fp_deep fp a (tsize u))"
    using Cons.prems by (intro getAlphaDeepHeight_adh) (auto simp: tsize_pos)
  have ld: "load (heap s) (Some (faddr f)) = Some (set_slot f (rootp u))"
    using stored_ctx_head[OF sc] by (simp add: load_def)
  have sib: "(if left (set_slot f (rootp u)) = rootp u
             then getSubtreeSize (heap s) (right (set_slot f (rootp u)))
             else getSubtreeSize (heap s) (left (set_slot f (rootp u)))) = Some (tsize (sibling f))"
    using sibling_size[OF sc] slot_side[OF Cons.prems(3) uc] by (cases f) auto
  have IH: "findScapegoat_loop fp s (case gs of [] \<Rightarrow> [] | f # gs' \<Rightarrow> path_of gs') (Some (faddr f))
      (prev_of gs) (tsize u + (1 + tsize (sibling f))) (i + 1) =
         Some \<lparr>scapegoat = rootp (fst (find_sg (fp_deep fp a) (fill f u) (i + 1) gs)),
               parent = prev_of (snd (find_sg (fp_deep fp a) (fill f u) (i + 1) gs)),
               treeSize = tsize (fst (find_sg (fp_deep fp a) (fill f u) (i + 1) gs))\<rparr>"
    using Cons.IH[of "fill f u" "i + 1"] Cons.prems by (simp add: tsize_fill[of f u])
  show ?case
  proof (cases "i > fp_deep fp a (tsize u)")
    case True
    then show ?thesis by (subst findScapegoat_loop.simps) (simp add: dh)
  next
    case False
    then show ?thesis
      apply (subst findScapegoat_loop.simps)
      apply (simp add: dh ld sib stack_path_of del: One_nat_def)
      apply (rule IH)
      done
  qed
qed

lemma findScapegoat_stored:
  assumes "stored (heap s) (plug u (f # fs))" and "distinct (addrs (plug u (f # fs)))"
    and "alpha s = Num a" and "0 < a" and "a < 1"
  shows "findScapegoat fp s (path_of (f # fs)) =
         Some \<lparr>scapegoat = rootp (fst (find_sg (fp_deep fp a) (fill f u) 1 fs)),
               parent = prev_of (snd (find_sg (fp_deep fp a) (fill f u) 1 fs)),
               treeSize = tsize (fst (find_sg (fp_deep fp a) (fill f u) 1 fs))\<rparr>"
proof -
  have st: "stored (heap s) (plug (fill f u) fs)" using assms(1) by simp
  have di: "distinct (addrs (plug (fill f u) fs))" using assms(2) by simp
  have sf: "stored (heap s) (fill f u)" using st by (simp add: stored_plug)
  have gs: "getSubtreeSize (heap s) (Some (faddr f)) = Some (tsize (fill f u))"
    using getSubtreeSize_stored[OF sf] by simp
  show ?thesis
    using findScapegoat_loop_stored[OF st di _ assms(3,4,5), where i = 1]
    by (simp add: findScapegoat_def stack_path_of gs)
qed

lemma rootp_plug_Cons: "rootp (plug u (f # fs)) = rootp (plug v (f # fs))"
  by (simp add: rootp_plug del: plug.simps)

lemma fits_less: "fits k f \<Longrightarrow> (k < key (set_slot f q)) = (case f of LH a x r \<Rightarrow> True | RH l a x \<Rightarrow> False)"
  by (cases f) (auto simp: set_slot_def)

lemma set_slot_upd:
  "(case f of LH a x r \<Rightarrow> set_slot f q\<lparr>left := q'\<rparr> | RH l a x \<Rightarrow> set_slot f q\<lparr>right := q'\<rparr>) = set_slot f q'"
  by (cases f) (auto simp: set_slot_def)

lemma insert_wire_plug:
  assumes st: "stored (heap s) (plug Leaf fs)" and di: "distinct (addrs (plug Leaf fs))"
    and fr: "next_addr s \<notin> set (addrs (plug Leaf fs))"
    and fi: "list_all (fits k) fs" and ro: "root_f s = rootp (plug Leaf fs)"
  shows "\<exists>s'. insert_wire s k (prev_of fs) = Some s'
      \<and> stored (heap s') (plug (Br Leaf (next_addr s) k Leaf) fs)
      \<and> root_f s' = rootp (plug (Br Leaf (next_addr s) k Leaf) fs)
      \<and> (\<forall>a. a \<notin> set (addrs (plug Leaf fs)) \<and> a \<noteq> next_addr s \<longrightarrow> heap s' a = heap s a)
      \<and> next_addr s' = next_addr s + 1 \<and> size_f s' = size_f s + 1
      \<and> maxSize s' = max (maxSize s) (size_f s + 1)
      \<and> alpha s' = alpha s \<and> replaceWithSucc s' = replaceWithSucc s"
proof (cases fs)
  case Nil
  then show ?thesis using ro
    by (auto simp: insert_wire_def Let_def max_def)
next
  case (Cons f gs)
  let ?d = "next_addr s"
  let ?new = "Br Leaf ?d k Leaf"
  let ?h0 = "(heap s)(?d \<mapsto> \<lparr>key = k, left = None, right = None\<rparr>)"
  let ?h' = "?h0(faddr f \<mapsto> set_slot f (Some ?d))"
  from st Cons have sc: "stored_ctx (heap s) None (f # gs)"
    by (simp add: stored_plug del: plug.simps)
  from di Cons have dc: "distinct (caddrs (f # gs))"
    by (simp add: distinct_plug del: plug.simps)
  from fr Cons have frc: "?d \<notin> set (caddrs (f # gs))"
    by (simp add: set_addrs_plug del: plug.simps)
  have fa: "faddr f \<in> set (caddrs (f # gs))" by (simp add: caddrs_Cons)
  have fad: "faddr f \<noteq> ?d" using fa frc by auto
  have hf: "heap s (faddr f) = Some (set_slot f None)" by (rule stored_ctx_head[OF sc])
  have ff: "fits k f" using fi Cons by simp
  have iw: "insert_wire s k (prev_of fs) =
      Some (s\<lparr>heap := ?h', next_addr := ?d + 1, size_f := size_f s + 1,
               maxSize := (if size_f s + 1 > maxSize s then size_f s + 1 else maxSize s)\<rparr>)"
    using fad ff hf Cons
    by (cases f) (auto simp: insert_wire_def Let_def load_def set_left_def set_right_def
        set_slot_def)
  have sc': "stored_ctx ?h' (Some ?d) (f # gs)"
  proof (rule stored_ctx_slot[OF sc dc])
    show "?h' (faddr f) = Some (set_slot f (Some ?d))" by simp
  next
    fix a assume "a \<in> set (caddrs (f # gs))" "a \<noteq> faddr f"
    then show "?h' a = heap s a" using frc by auto
  qed
  have sn: "stored ?h' ?new" using fad by simp
  have s': "stored ?h' (plug ?new fs)"
    using sn sc' Cons by (simp add: stored_plug del: plug.simps)
  have rt: "root_f s = rootp (plug ?new fs)"
    using ro Cons rootp_plug_Cons[of Leaf f gs ?new] by simp
  have o: "\<forall>a. a \<notin> set (addrs (plug Leaf fs)) \<and> a \<noteq> ?d \<longrightarrow> ?h' a = heap s a"
    using fa Cons by (auto simp: set_addrs_plug simp del: plug.simps)
  show ?thesis
    using s' rt o by (simp add: iw max_def)
qed

lemma remove_loop_stored:
  "stored h u \<Longrightarrow>
   remove_loop h k (prev_of fs) (rootp u) =
     Some (map_option (\<lambda>(u', fs'). (prev_of fs', rootp u')) (locate k u fs))"
proof (induction u arbitrary: fs)
  case Leaf
  then show ?case by (subst remove_loop.simps) simp
next
  case (Br l a x r)
  from Br.prems have sl: "stored h l" and sr: "stored h r" by auto
  show ?case
    using Br.IH(1)[OF sl, of "LH a x r # fs"] Br.IH(2)[OF sr, of "RH l a x # fs"] Br.prems
    by (subst remove_loop.simps) auto
qed

lemma locate_Some:
  "locate k u fs = Some (u', fs') \<Longrightarrow>
     \<exists>gs l a r. fs' = gs @ fs \<and> plug u' gs = u \<and> u' = Br l a k r"
proof (induction u arbitrary: fs)
  case Leaf
  then show ?case by simp
next
  case (Br l a x r)
  show ?case
  proof (cases "k = x")
    case True
    with Br.prems show ?thesis by auto
  next
    case ne: False
    show ?thesis
    proof (cases "k < x")
      case True
      with Br.prems ne have "locate k l (LH a x r # fs) = Some (u', fs')" by simp
      from Br.IH(1)[OF this] obtain gs l' a' r' where
        gs: "fs' = gs @ LH a x r # fs" "plug u' gs = l" "u' = Br l' a' k r'" by blast
      show ?thesis
        using gs by (intro exI[of _ "gs @ [LH a x r]"]) (simp add: plug_append)
    next
      case False
      with Br.prems ne have "locate k r (RH l a x # fs) = Some (u', fs')" by simp
      from Br.IH(2)[OF this] obtain gs l' a' r' where
        gs: "fs' = gs @ RH l a x # fs" "plug u' gs = r" "u' = Br l' a' k r'" by blast
      show ?thesis
        using gs by (intro exI[of _ "gs @ [RH l a x]"]) (simp add: plug_append)
    qed
  qed
qed

lemma locate_None: "bst u \<Longrightarrow> (locate k u fs = None) = (k \<notin> set (keys u))"
  by (induction u arbitrary: fs) (auto simp: list_all_iff)

lemma nodes_del_min: "t \<noteq> Leaf \<Longrightarrow> nodes t = fst (del_min t) # nodes (snd (del_min t))"
  by (induction t) auto

lemma nodes_del_max: "t \<noteq> Leaf \<Longrightarrow> nodes t = nodes (snd (del_max t)) @ [fst (del_max t)]"
  by (induction t) auto

lemma addrs_del_min: "t \<noteq> Leaf \<Longrightarrow> addrs t = fst (fst (del_min t)) # addrs (snd (del_min t))"
  by (simp add: addrs_nodes nodes_del_min[of t])

lemma addrs_del_max: "t \<noteq> Leaf \<Longrightarrow> addrs t = addrs (snd (del_max t)) @ [fst (fst (del_max t))]"
  by (simp add: addrs_nodes nodes_del_max[of t])

lemma left_spine_stored:
  "stored h t \<Longrightarrow> distinct (addrs t) \<Longrightarrow> t = Br l c ck r \<Longrightarrow> l \<noteq> Leaf \<Longrightarrow>
   \<exists>p pn mn. left_spine h prev (Some c) = Some (Some p, Some (fst (fst (del_min t))))
      \<and> h p = Some pn \<and> h (fst (fst (del_min t))) = Some mn \<and> key mn = snd (fst (del_min t))
      \<and> p \<in> set (addrs t) \<and> p \<noteq> fst (fst (del_min t))
      \<and> stored (h(p \<mapsto> pn\<lparr>left := right mn\<rparr>)) (snd (del_min t))
      \<and> rootp (snd (del_min t)) = Some c"
proof (induction t arbitrary: l c ck r prev)
  case Leaf
  then show ?case by simp
next
  case (Br t1 a k t2)
  then have eq: "t1 = l" "a = c" "k = ck" "t2 = r" by auto
  obtain ll b bk lr where l: "l = Br ll b bk lr" using Br.prems(4) by (cases l) auto
  from Br.prems(1) eq l have hc: "h c = Some \<lparr>key = ck, left = Some b, right = rootp r\<rparr>"
    and hb: "h b = Some \<lparr>key = bk, left = rootp ll, right = rootp lr\<rparr>"
    and sl: "stored h l" and sr: "stored h r" and slr: "stored h lr" by auto
  from Br.prems(2) eq l have dl: "distinct (addrs l)" and cl: "c \<notin> set (addrs l)"
    and cr: "c \<notin> set (addrs r)" and bc: "b \<noteq> c" and lr: "set (addrs l) \<inter> set (addrs r) = {}"
    by auto
  show ?case
  proof (cases "ll = Leaf")
    case True
    define cn where "cn = \<lparr>key = ck, left = Some b, right = rootp r\<rparr>"
    define bn where "bn = \<lparr>key = bk, left = rootp ll, right = rootp lr\<rparr>"
    have dm: "del_min (Br t1 a k t2) = ((b, bk), Br lr c ck r)"
      using True l eq by simp
    have ls: "left_spine h prev (Some c) = Some (Some c, Some (fst (fst (del_min (Br t1 a k t2)))))"
      unfolding dm
      by (subst left_spine.simps, simp add: load_def hc, subst left_spine.simps)
         (simp add: load_def hb True)
    have st: "stored (h(c \<mapsto> cn\<lparr>left := right bn\<rparr>)) (snd (del_min (Br t1 a k t2)))"
      unfolding dm using cl cr l
      by (auto simp: cn_def bn_def intro: stored_cong[OF slr] stored_cong[OF sr])
    have f1: "h c = Some cn" by (simp add: hc cn_def)
    have f2: "h (fst (fst (del_min (Br t1 a k t2)))) = Some bn" unfolding dm by (simp add: hb bn_def)
    have f3: "key bn = snd (fst (del_min (Br t1 a k t2)))" unfolding dm by (simp add: bn_def)
    have f4: "c \<in> set (addrs (Br t1 a k t2))" using eq by simp
    have f5: "c \<noteq> fst (fst (del_min (Br t1 a k t2)))" unfolding dm using bc by simp
    have f6: "rootp (snd (del_min (Br t1 a k t2))) = Some c" unfolding dm by simp
    show ?thesis
      by (rule exI[of _ c], rule exI[of _ cn], rule exI[of _ bn]) (intro conjI ls f1 f2 f3 f4 f5 st f6)
  next
    case False
    from Br.IH(1)[of ll b bk lr "Some c"] sl dl eq l False obtain p pn mn where
      ls: "left_spine h (Some c) (Some b) = Some (Some p, Some (fst (fst (del_min l))))"
      and hp: "h p = Some pn" and hm: "h (fst (fst (del_min l))) = Some mn"
      and km: "key mn = snd (fst (del_min l))" and pl: "p \<in> set (addrs l)"
      and pm: "p \<noteq> fst (fst (del_min l))"
      and st: "stored (h(p \<mapsto> pn\<lparr>left := right mn\<rparr>)) (snd (del_min l))"
      and rt: "rootp (snd (del_min l)) = Some b" by blast
    have dm: "del_min (Br t1 a k t2) = (fst (del_min l), Br (snd (del_min l)) c ck r)"
      using Br.prems(4) eq by simp
    have ls': "left_spine h prev (Some c) = Some (Some p, Some (fst (fst (del_min (Br t1 a k t2)))))"
      unfolding dm by (subst left_spine.simps) (simp add: load_def hc ls)
    have pc: "p \<noteq> c" using pl cl by auto
    have pr: "p \<notin> set (addrs r)" using pl lr by auto
    have sr': "stored (h(p \<mapsto> pn\<lparr>left := right mn\<rparr>)) r"
      using pr by (intro stored_cong[OF sr]) auto
    have st': "stored (h(p \<mapsto> pn\<lparr>left := right mn\<rparr>)) (snd (del_min (Br t1 a k t2)))"
      unfolding dm using st sr' rt pc hc by simp
    have f2: "h (fst (fst (del_min (Br t1 a k t2)))) = Some mn" unfolding dm by (simp add: hm)
    have f3: "key mn = snd (fst (del_min (Br t1 a k t2)))" unfolding dm by (simp add: km)
    have f4: "p \<in> set (addrs (Br t1 a k t2))" using eq pl by simp
    have f5: "p \<noteq> fst (fst (del_min (Br t1 a k t2)))" using pm unfolding dm by simp
    have f6: "rootp (snd (del_min (Br t1 a k t2))) = Some c" unfolding dm by simp
    show ?thesis
      by (rule exI[of _ p], rule exI[of _ pn], rule exI[of _ mn]) (intro conjI ls' hp f2 f3 f4 f5 st' f6)
  qed
qed

lemma right_spine_stored:
  "stored h t \<Longrightarrow> distinct (addrs t) \<Longrightarrow> t = Br l c ck r \<Longrightarrow> r \<noteq> Leaf \<Longrightarrow>
   \<exists>p pn mn. right_spine h prev (Some c) = Some (Some p, Some (fst (fst (del_max t))))
      \<and> h p = Some pn \<and> h (fst (fst (del_max t))) = Some mn \<and> key mn = snd (fst (del_max t))
      \<and> p \<in> set (addrs t) \<and> p \<noteq> fst (fst (del_max t))
      \<and> stored (h(p \<mapsto> pn\<lparr>right := left mn\<rparr>)) (snd (del_max t))
      \<and> rootp (snd (del_max t)) = Some c"
proof (induction t arbitrary: l c ck r prev)
  case Leaf
  then show ?case by simp
next
  case (Br t1 a k t2)
  then have eq: "t1 = l" "a = c" "k = ck" "t2 = r" by auto
  obtain rl b bk rr where r: "r = Br rl b bk rr" using Br.prems(4) by (cases r) auto
  from Br.prems(1) eq r have hc: "h c = Some \<lparr>key = ck, left = rootp l, right = Some b\<rparr>"
    and hb: "h b = Some \<lparr>key = bk, left = rootp rl, right = rootp rr\<rparr>"
    and sl: "stored h l" and sr: "stored h r" and srl: "stored h rl" by auto
  from Br.prems(2) eq r have dr: "distinct (addrs r)" and cl: "c \<notin> set (addrs l)"
    and cr: "c \<notin> set (addrs r)" and bc: "b \<noteq> c" and lr: "set (addrs l) \<inter> set (addrs r) = {}"
    by auto
  show ?case
  proof (cases "rr = Leaf")
    case True
    define cn where "cn = \<lparr>key = ck, left = rootp l, right = Some b\<rparr>"
    define bn where "bn = \<lparr>key = bk, left = rootp rl, right = rootp rr\<rparr>"
    have dm: "del_max (Br t1 a k t2) = ((b, bk), Br l c ck rl)"
      using True r eq by simp
    have ls: "right_spine h prev (Some c) = Some (Some c, Some (fst (fst (del_max (Br t1 a k t2)))))"
      unfolding dm
      by (subst right_spine.simps, simp add: load_def hc, subst right_spine.simps)
         (simp add: load_def hb True)
    have st: "stored (h(c \<mapsto> cn\<lparr>right := left bn\<rparr>)) (snd (del_max (Br t1 a k t2)))"
      unfolding dm using cl cr r
      by (auto simp: cn_def bn_def intro: stored_cong[OF srl] stored_cong[OF sl])
    have f1: "h c = Some cn" by (simp add: hc cn_def)
    have f2: "h (fst (fst (del_max (Br t1 a k t2)))) = Some bn" unfolding dm by (simp add: hb bn_def)
    have f3: "key bn = snd (fst (del_max (Br t1 a k t2)))" unfolding dm by (simp add: bn_def)
    have f4: "c \<in> set (addrs (Br t1 a k t2))" using eq by simp
    have f5: "c \<noteq> fst (fst (del_max (Br t1 a k t2)))" unfolding dm using bc by simp
    have f6: "rootp (snd (del_max (Br t1 a k t2))) = Some c" unfolding dm by simp
    show ?thesis
      by (rule exI[of _ c], rule exI[of _ cn], rule exI[of _ bn]) (intro conjI ls f1 f2 f3 f4 f5 st f6)
  next
    case False
    from Br.IH(2)[of rl b bk rr "Some c"] sr dr eq r False obtain p pn mn where
      ls: "right_spine h (Some c) (Some b) = Some (Some p, Some (fst (fst (del_max r))))"
      and hp: "h p = Some pn" and hm: "h (fst (fst (del_max r))) = Some mn"
      and km: "key mn = snd (fst (del_max r))" and pl: "p \<in> set (addrs r)"
      and pm: "p \<noteq> fst (fst (del_max r))"
      and st: "stored (h(p \<mapsto> pn\<lparr>right := left mn\<rparr>)) (snd (del_max r))"
      and rt: "rootp (snd (del_max r)) = Some b" by blast
    have dm: "del_max (Br t1 a k t2) = (fst (del_max r), Br l c ck (snd (del_max r)))"
      using Br.prems(4) eq by simp
    have ls': "right_spine h prev (Some c) = Some (Some p, Some (fst (fst (del_max (Br t1 a k t2)))))"
      unfolding dm by (subst right_spine.simps) (simp add: load_def hc ls)
    have pc: "p \<noteq> c" using pl cr by auto
    have pr: "p \<notin> set (addrs l)" using pl lr by auto
    have sl': "stored (h(p \<mapsto> pn\<lparr>right := left mn\<rparr>)) l"
      using pr by (intro stored_cong[OF sl]) auto
    have st': "stored (h(p \<mapsto> pn\<lparr>right := left mn\<rparr>)) (snd (del_max (Br t1 a k t2)))"
      unfolding dm using st sl' rt pc hc by simp
    have f2: "h (fst (fst (del_max (Br t1 a k t2)))) = Some mn" unfolding dm by (simp add: hm)
    have f3: "key mn = snd (fst (del_max (Br t1 a k t2)))" unfolding dm by (simp add: km)
    have f4: "p \<in> set (addrs (Br t1 a k t2))" using eq pl by simp
    have f5: "p \<noteq> fst (fst (del_max (Br t1 a k t2)))" unfolding dm using pm by simp
    have f6: "rootp (snd (del_max (Br t1 a k t2))) = Some c" unfolding dm by simp
    show ?thesis
      by (rule exI[of _ p], rule exI[of _ pn], rule exI[of _ mn]) (intro conjI ls' hp f2 f3 f4 f5 st' f6)
  qed
qed

lemma rootp_None_iff [simp]: "(rootp t = None) = (t = Leaf)" "(None = rootp t) = (t = Leaf)"
  by (cases t; auto)+

lemma two_children_succ:
  assumes st: "stored (heap s) (Br l a k r)" and di: "distinct (addrs (Br l a k r))"
    and ln: "l \<noteq> Leaf" and rn: "r \<noteq> Leaf" and b: "replaceWithSucc s"
  shows "\<exists>h'. removeNodeWithTwoChildren s (Some a) =
        Some (s\<lparr>heap := h', replaceWithSucc := \<not> replaceWithSucc s\<rparr>)
      \<and> stored h' (Br l a (snd (fst (del_min r))) (snd (del_min r)))
      \<and> (\<forall>x. x \<notin> set (addrs (Br l a k r)) \<longrightarrow> h' x = heap s x)
      \<and> h' (fst (fst (del_min r))) = None"
proof -
  let ?h = "heap s"
  obtain rl c ck rr where r: "r = Br rl c ck rr" using rn by (cases r) auto
  from st r have ha: "?h a = Some \<lparr>key = k, left = rootp l, right = Some c\<rparr>"
    and hc: "?h c = Some \<lparr>key = ck, left = rootp rl, right = rootp rr\<rparr>"
    and sl: "stored ?h l" and sr: "stored ?h r" and srr: "stored ?h rr" by auto
  from di r have ac: "a \<noteq> c" and al: "a \<notin> set (addrs l)" and ar: "a \<notin> set (addrs r)"
    and lr: "set (addrs l) \<inter> set (addrs r) = {}" and dr: "distinct (addrs r)"
    and cl: "c \<notin> set (addrs l)" and crr: "c \<notin> set (addrs rr)" by auto
  show ?thesis
  proof (cases "rl = Leaf")
    case True
    let ?h' = "?h(a \<mapsto> \<lparr>key = ck, left = rootp l, right = rootp rr\<rparr>, c := None)"
    have dm: "del_min r = ((c, ck), rr)" using True r by simp
    have run: "removeNodeWithTwoChildren s (Some a) =
        Some (s\<lparr>heap := ?h', replaceWithSucc := \<not> replaceWithSucc s\<rparr>)"
      using ac b True
      by (simp add: removeNodeWithTwoChildren_def load_def ha hc set_right_def set_key_def
          delete_node_def Let_def)
    have s1: "stored ?h' l" using al cl by (intro stored_cong[OF sl]) auto
    have s2: "stored ?h' rr" using ar crr r by (intro stored_cong[OF srr]) auto
    have s': "stored ?h' (Br l a (snd (fst (del_min r))) (snd (del_min r)))"
      unfolding dm using s1 s2 ac by simp
    have o: "\<forall>x. x \<notin> set (addrs (Br l a k r)) \<longrightarrow> ?h' x = ?h x" using r by auto
    have v: "?h' (fst (fst (del_min r))) = None" unfolding dm by simp
    show ?thesis by (rule exI[of _ ?h']) (intro conjI run s' o v)
  next
    case False
    from left_spine_stored[OF sr dr r False, of "Some a"] obtain p pn mn where
      ls: "left_spine ?h (Some a) (Some c) = Some (Some p, Some (fst (fst (del_min r))))"
      and hp: "?h p = Some pn" and hm: "?h (fst (fst (del_min r))) = Some mn"
      and km: "key mn = snd (fst (del_min r))" and pr: "p \<in> set (addrs r)"
      and pm: "p \<noteq> fst (fst (del_min r))"
      and st1: "stored (?h(p \<mapsto> pn\<lparr>left := right mn\<rparr>)) (snd (del_min r))"
      and rt: "rootp (snd (del_min r)) = Some c" by blast
    define m where "m = fst (fst (del_min r))"
    define r' where "r' = snd (del_min r)"
    have adr: "addrs r = m # addrs r'" using addrs_del_min[OF rn] by (simp add: m_def r'_def)
    have mr: "m \<in> set (addrs r)" and mr': "m \<notin> set (addrs r')" and sub: "set (addrs r') \<subseteq> set (addrs r)"
      using adr dr by auto
    have pa: "p \<noteq> a" using pr ar by auto
    have ma: "m \<noteq> a" using mr ar by auto
    let ?h1 = "?h(p \<mapsto> pn\<lparr>left := right mn\<rparr>)"
    let ?h' = "?h1(a \<mapsto> \<lparr>key = key mn, left = rootp l, right = Some c\<rparr>, m := None)"
    have run: "removeNodeWithTwoChildren s (Some a) =
        Some (s\<lparr>heap := ?h', replaceWithSucc := \<not> replaceWithSucc s\<rparr>)"
      using ac b False pa ma pm[folded m_def] hp hm[folded m_def]
      by (simp add: removeNodeWithTwoChildren_def load_def ha hc ls[folded m_def] set_left_def
          set_key_def delete_node_def Let_def)
    have s1: "stored ?h' l" using al lr pr mr by (intro stored_cong[OF sl]) auto
    have s2: "stored ?h' r'" using ar sub mr' st1[folded r'_def]
      by (intro stored_cong[of ?h1 r' ?h']) auto
    have s': "stored ?h' (Br l a (snd (fst (del_min r))) (snd (del_min r)))"
      using s1 s2 ma rt km by (simp add: r'_def[symmetric])
    have o: "\<forall>x. x \<notin> set (addrs (Br l a k r)) \<longrightarrow> ?h' x = ?h x" using pr mr by auto
    have v: "?h' (fst (fst (del_min r))) = None" by (simp add: m_def)
    show ?thesis by (rule exI[of _ ?h']) (intro conjI run s' o v)
  qed
qed

lemma two_children_pred:
  assumes st: "stored (heap s) (Br l a k r)" and di: "distinct (addrs (Br l a k r))"
    and ln: "l \<noteq> Leaf" and rn: "r \<noteq> Leaf" and b: "\<not> replaceWithSucc s"
  shows "\<exists>h'. removeNodeWithTwoChildren s (Some a) =
        Some (s\<lparr>heap := h', replaceWithSucc := \<not> replaceWithSucc s\<rparr>)
      \<and> stored h' (Br (snd (del_max l)) a (snd (fst (del_max l))) r)
      \<and> (\<forall>x. x \<notin> set (addrs (Br l a k r)) \<longrightarrow> h' x = heap s x)
      \<and> h' (fst (fst (del_max l))) = None"
proof -
  let ?h = "heap s"
  obtain ll c ck lr where l: "l = Br ll c ck lr" using ln by (cases l) auto
  from st l have ha: "?h a = Some \<lparr>key = k, left = Some c, right = rootp r\<rparr>"
    and hc: "?h c = Some \<lparr>key = ck, left = rootp ll, right = rootp lr\<rparr>"
    and sl: "stored ?h l" and sr: "stored ?h r" and sll: "stored ?h ll" by auto
  from di l have ac: "a \<noteq> c" and al: "a \<notin> set (addrs l)" and ar: "a \<notin> set (addrs r)"
    and lr: "set (addrs l) \<inter> set (addrs r) = {}" and dl: "distinct (addrs l)"
    and cr: "c \<notin> set (addrs r)" and cll: "c \<notin> set (addrs ll)" by auto
  show ?thesis
  proof (cases "lr = Leaf")
    case True
    let ?h' = "?h(a \<mapsto> \<lparr>key = ck, left = rootp ll, right = rootp r\<rparr>, c := None)"
    have dm: "del_max l = ((c, ck), ll)" using True l by simp
    have run: "removeNodeWithTwoChildren s (Some a) =
        Some (s\<lparr>heap := ?h', replaceWithSucc := \<not> replaceWithSucc s\<rparr>)"
      using ac b True
      by (simp add: removeNodeWithTwoChildren_def load_def ha hc set_left_def set_key_def
          delete_node_def Let_def)
    have s1: "stored ?h' r" using ar cr by (intro stored_cong[OF sr]) auto
    have s2: "stored ?h' ll" using al cll l by (intro stored_cong[OF sll]) auto
    have s': "stored ?h' (Br (snd (del_max l)) a (snd (fst (del_max l))) r)"
      unfolding dm using s1 s2 ac by simp
    have o: "\<forall>x. x \<notin> set (addrs (Br l a k r)) \<longrightarrow> ?h' x = ?h x" using l by auto
    have v: "?h' (fst (fst (del_max l))) = None" unfolding dm by simp
    show ?thesis by (rule exI[of _ ?h']) (intro conjI run s' o v)
  next
    case False
    from right_spine_stored[OF sl dl l False, of "Some a"] obtain p pn mn where
      ls: "right_spine ?h (Some a) (Some c) = Some (Some p, Some (fst (fst (del_max l))))"
      and hp: "?h p = Some pn" and hm: "?h (fst (fst (del_max l))) = Some mn"
      and km: "key mn = snd (fst (del_max l))" and pl: "p \<in> set (addrs l)"
      and pm: "p \<noteq> fst (fst (del_max l))"
      and st1: "stored (?h(p \<mapsto> pn\<lparr>right := left mn\<rparr>)) (snd (del_max l))"
      and rt: "rootp (snd (del_max l)) = Some c" by blast
    define m where "m = fst (fst (del_max l))"
    define l' where "l' = snd (del_max l)"
    have adl: "addrs l = addrs l' @ [m]" using addrs_del_max[OF ln] by (simp add: m_def l'_def)
    have ml: "m \<in> set (addrs l)" and ml': "m \<notin> set (addrs l')" and sub: "set (addrs l') \<subseteq> set (addrs l)"
      using adl dl by auto
    have pa: "p \<noteq> a" using pl al by auto
    have ma: "m \<noteq> a" using ml al by auto
    let ?h1 = "?h(p \<mapsto> pn\<lparr>right := left mn\<rparr>)"
    let ?h' = "?h1(a \<mapsto> \<lparr>key = key mn, left = Some c, right = rootp r\<rparr>, m := None)"
    have run: "removeNodeWithTwoChildren s (Some a) =
        Some (s\<lparr>heap := ?h', replaceWithSucc := \<not> replaceWithSucc s\<rparr>)"
      using ac b False pa ma pm[folded m_def] hp hm[folded m_def]
      by (simp add: removeNodeWithTwoChildren_def load_def ha hc ls[folded m_def] set_right_def
          set_key_def delete_node_def Let_def)
    have s1: "stored ?h' r" using ar lr pl ml by (intro stored_cong[OF sr]) auto
    have s2: "stored ?h' l'" using al sub ml' st1[folded l'_def]
      by (intro stored_cong[of ?h1 l' ?h']) auto
    have s': "stored ?h' (Br (snd (del_max l)) a (snd (fst (del_max l))) r)"
      using s1 s2 ma rt km by (simp add: l'_def[symmetric])
    have o: "\<forall>x. x \<notin> set (addrs (Br l a k r)) \<longrightarrow> ?h' x = ?h x" using pl ml by auto
    have v: "?h' (fst (fst (del_max l))) = None" by (simp add: m_def)
    show ?thesis by (rule exI[of _ ?h']) (intro conjI run s' o v)
  qed
qed

lemma two_children_stored:
  assumes st: "stored (heap s) (Br l a k r)" and di: "distinct (addrs (Br l a k r))"
    and ln: "l \<noteq> Leaf" and rn: "r \<noteq> Leaf"
  shows "\<exists>h'. removeNodeWithTwoChildren s (Some a) =
        Some (s\<lparr>heap := h', replaceWithSucc := \<not> replaceWithSucc s\<rparr>)
      \<and> stored h' (splice_tree (replaceWithSucc s) (Br l a k r))
      \<and> (\<forall>x. x \<notin> set (addrs (Br l a k r)) \<longrightarrow> h' x = heap s x)
      \<and> h' (victim (replaceWithSucc s) (Br l a k r)) = None"
proof (cases "replaceWithSucc s")
  case True
  from two_children_succ[OF st di ln rn True] show ?thesis using True ln rn by simp
next
  case False
  from two_children_pred[OF st di ln rn False] show ?thesis using False ln rn by simp
qed

lemma rootp_splice2:
  "l \<noteq> Leaf \<Longrightarrow> r \<noteq> Leaf \<Longrightarrow> rootp (splice_tree b (Br l a k r)) = Some a"
  by simp

lemma without_child_stored:
  assumes st: "stored (heap s) (plug (Br l a k r) fs)"
    and di: "distinct (addrs (plug (Br l a k r) fs))"
    and ch: "l = Leaf \<or> r = Leaf" and ro: "root_f s = rootp (plug (Br l a k r) fs)"
  shows "\<exists>h'. removeNodeWithoutChild s (Some a) (prev_of fs) =
        Some (s\<lparr>root_f := rootp (plug (splice_tree b (Br l a k r)) fs), heap := h'\<rparr>)
      \<and> stored h' (plug (splice_tree b (Br l a k r)) fs)
      \<and> (\<forall>x. x \<notin> set (addrs (plug (Br l a k r) fs)) \<longrightarrow> h' x = heap s x)
      \<and> h' a = None"
proof -
  let ?u = "Br l a k r"
  define c where "c = splice_tree b ?u"
  let ?h = "heap s"
  from st have su: "stored ?h ?u" and sc: "stored_ctx ?h (Some a) fs"
    by (simp_all add: stored_plug)
  from di have du: "distinct (addrs ?u)" and dc: "distinct (caddrs fs)"
    and uc: "set (addrs ?u) \<inter> set (caddrs fs) = {}"
    by (simp_all add: distinct_plug)
  have ha: "?h a = Some \<lparr>key = k, left = rootp l, right = rootp r\<rparr>" using su by simp
  have cl1: "\<And>y. rootp l = Some y \<Longrightarrow> rootp c = Some y"
    using ch by (auto simp: c_def)
  have cl2: "l = Leaf \<Longrightarrow> rootp c = rootp r"
    by (auto simp: c_def)
  have cs: "stored ?h c" using su ch by (auto simp: c_def)
  have csub: "set (addrs c) \<subseteq> set (addrs ?u)" "a \<notin> set (addrs c)"
    using ch du by (auto simp: c_def)
  have goal: "\<exists>h'. removeNodeWithoutChild s (Some a) (prev_of fs) =
        Some (s\<lparr>root_f := rootp (plug c fs), heap := h'\<rparr>)
      \<and> stored h' (plug c fs)
      \<and> (\<forall>x. x \<notin> set (addrs (plug ?u fs)) \<longrightarrow> h' x = heap s x)
      \<and> h' a = None"
  proof (cases fs)
    case Nil
    let ?h' = "?h(a := None)"
    have run: "removeNodeWithoutChild s (Some a) (prev_of fs) =
        Some (s\<lparr>root_f := rootp (plug c fs), heap := ?h'\<rparr>)"
      using ro Nil cl1 cl2
      by (auto simp: removeNodeWithoutChild_def load_def ha delete_node_def Let_def)
    have s': "stored ?h' (plug c fs)"
      unfolding Nil plug.simps using csub by (intro stored_cong[OF cs]) auto
    have o: "\<forall>x. x \<notin> set (addrs (plug ?u fs)) \<longrightarrow> ?h' x = ?h x" using Nil by auto
    have v: "?h' a = None" by simp
    show ?thesis by (rule exI[of _ ?h']) (intro conjI run s' o v)
  next
    case (Cons f gs)
    have fa: "faddr f \<in> set (caddrs (f # gs))" by (simp add: caddrs_Cons)
    have fna: "faddr f \<noteq> a" using fa uc Cons by auto
    have rne: "root_f s \<noteq> Some a"
    proof -
      have "root_f s = Some (faddr (last fs))" using ro Cons by (simp add: rootp_plug)
      moreover have "faddr (last fs) \<in> set (caddrs fs)"
        using Cons
      proof (induction fs arbitrary: f gs)
        case Nil
        then show ?case by simp
      next
        case (Cons g hs)
        then show ?case by (cases hs) (auto simp: caddrs_Cons)
      qed
      ultimately show ?thesis using uc by auto
    qed
    have hf: "?h (faddr f) = Some (set_slot f (Some a))"
      using stored_ctx_head sc Cons by simp
    have side: "(left (set_slot f (Some a)) = Some a) = (case f of LH a k r \<Rightarrow> True | RH l a k \<Rightarrow> False)"
      using slot_side[of ?u f gs] uc Cons by simp
    let ?h' = "?h(faddr f \<mapsto> set_slot f (rootp c), a := None)"
    have run: "removeNodeWithoutChild s (Some a) (prev_of fs) = Some (s\<lparr>heap := ?h'\<rparr>)"
      using rne fna side hf Cons cl1 cl2
      by (cases f) (auto simp: removeNodeWithoutChild_def load_def ha delete_node_def Let_def
          set_left_def set_right_def set_slot_def)
    have rt: "rootp (plug c fs) = root_f s"
      using ro Cons rootp_plug_Cons[of c f gs ?u] by simp
    have run': "removeNodeWithoutChild s (Some a) (prev_of fs) =
        Some (s\<lparr>root_f := rootp (plug c fs), heap := ?h'\<rparr>)"
      by (simp add: run rt)
    have sc': "stored_ctx ?h' (rootp c) (f # gs)"
    proof (rule stored_ctx_slot[of ?h "Some a"])
      show "stored_ctx ?h (Some a) (f # gs)" using sc Cons by simp
      show "distinct (caddrs (f # gs))" using dc Cons by simp
      show "?h' (faddr f) = Some (set_slot f (rootp c))" using fna by simp
    next
      fix x assume "x \<in> set (caddrs (f # gs))" "x \<noteq> faddr f"
      then show "?h' x = ?h x" using uc Cons by auto
    qed
    have sc2: "stored ?h' c"
      using csub fa uc Cons by (intro stored_cong[OF cs]) auto
    have s': "stored ?h' (plug c fs)"
      using sc' sc2 Cons by (simp add: stored_plug del: plug.simps)
    have o: "\<forall>x. x \<notin> set (addrs (plug ?u fs)) \<longrightarrow> ?h' x = ?h x"
      using fa Cons by (auto simp: set_addrs_plug simp del: plug.simps)
    have v: "?h' a = None" by simp
    show ?thesis by (rule exI[of _ ?h']) (intro conjI run' s' o v)
  qed
  then show ?thesis unfolding c_def .
qed

subsection \<open>Alpha-deep height\<close>



lemma adh_pow:
  assumes "0 < a" "a < 1" "(1 / a) ^ k \<le> real n"
  shows "k \<le> adh a n"
proof -
  have pos: "0 < ln (1 / a)" using assms by (simp add: ln_div)
  have npos: "0 < real n"
    using assms by (smt (verit) zero_less_power divide_pos_pos)
  have "ln ((1 / a) ^ k) \<le> ln (real n)"
    using assms npos by (subst ln_le_cancel_iff) auto
  then have "real k * ln (1 / a) \<le> ln (real n)"
    using assms by (simp add: ln_realpow)
  then have "real k \<le> ln (real n) / ln (1 / a)"
    using pos by (simp add: pos_le_divide_eq)
  then have "int k \<le> \<lfloor>ln (real n) / ln (1 / a)\<rfloor>" by (simp add: le_floor_iff)
  then show ?thesis unfolding adh_def by linarith
qed

lemma adh_less:
  assumes "0 < a" "a < 1" "0 < n" "real n < (1 / a) ^ k"
  shows "adh a n < k"
proof -
  have pos: "0 < ln (1 / a)" using assms by (simp add: ln_div)
  have "ln (real n) < ln ((1 / a) ^ k)"
    using assms by (subst ln_less_cancel_iff) auto
  then have "ln (real n) < real k * ln (1 / a)"
    using assms by (simp add: ln_realpow)
  then have "ln (real n) / ln (1 / a) < real k"
    using pos by (simp add: pos_divide_less_eq)
  then have "\<lfloor>ln (real n) / ln (1 / a)\<rfloor> < int k" by (simp add: floor_less_iff)
  moreover have "0 \<le> ln (real n) / ln (1 / a)" using pos assms(3) by simp
  then have "0 \<le> \<lfloor>ln (real n) / ln (1 / a)\<rfloor>" by simp
  ultimately show ?thesis unfolding adh_def by linarith
qed

lemma adh_eq:
  assumes "0 < a" "a < 1" "0 < n" "(1 / a) ^ k \<le> real n" "real n < (1 / a) ^ Suc k"
  shows "adh a n = k"
  using adh_pow[OF assms(1,2,4)] adh_less[OF assms(1,2,3,5)] by simp

subsection \<open>Height of the rebuilt tree\<close>



subsection \<open>Heights along a path\<close>





subsection \<open>Keys along a path\<close>

lemma fits_bounds:
  "sorted_wrt (<) (map snd (before fs) @ map snd (after fs)) \<Longrightarrow> list_all (fits k) fs \<Longrightarrow>
   (\<forall>x\<in>set (map snd (before fs)). x < k) \<and> (\<forall>x\<in>set (map snd (after fs)). k < x)"
proof (induction fs)
  case Nil
  then show ?case by simp
next
  case (Cons f fs)
  show ?case
  proof (cases f)
    case (LH a x r)
    from Cons.prems LH have s: "sorted_wrt (<) (map snd (before fs) @ x # keys r @ map snd (after fs))"
      and kx: "k < x" and fi: "list_all (fits k) fs" by (simp_all add: keys_nodes)
    from s have "sorted_wrt (<) (map snd (before fs) @ map snd (after fs))"
      by (auto simp: sorted_wrt_append)
    from Cons.IH[OF this fi] have ih: "\<forall>x\<in>set (map snd (before fs)). x < k"
      "\<forall>x\<in>set (map snd (after fs)). k < x" by auto
    have "\<forall>y\<in>set (keys r). x < y" using s by (auto simp: sorted_wrt_append)
    then show ?thesis using ih kx LH by (auto simp: keys_nodes[symmetric])
  next
    case (RH l a x)
    from Cons.prems RH have s: "sorted_wrt (<) (map snd (before fs) @ keys l @ x # map snd (after fs))"
      and kx: "x < k" and fi: "list_all (fits k) fs" by (simp_all add: keys_nodes)
    from s have "sorted_wrt (<) (map snd (before fs) @ map snd (after fs))"
      by (auto simp: sorted_wrt_append)
    from Cons.IH[OF this fi] have ih: "\<forall>x\<in>set (map snd (before fs)). x < k"
      "\<forall>x\<in>set (map snd (after fs)). k < x" by auto
    have "\<forall>y\<in>set (keys l). y < x" using s by (auto simp: sorted_wrt_append)
    then show ?thesis using ih kx RH by (auto simp: keys_nodes[symmetric])
  qed
qed

lemma bst_plug_insert:
  assumes "bst (plug Leaf fs)" and "list_all (fits k) fs"
  shows "bst (plug (Br Leaf d k Leaf) fs)"
    and "set (keys (plug (Br Leaf d k Leaf) fs)) = insert k (set (keys (plug Leaf fs)))"
proof -
  from assms(1) have s: "sorted_wrt (<) (map snd (before fs) @ map snd (after fs))"
    by (simp add: bst_sorted keys_plug)
  from fits_bounds[OF s assms(2)] s
  show "bst (plug (Br Leaf d k Leaf) fs)"
    by (auto simp: bst_sorted keys_plug sorted_wrt_append)
  show "set (keys (plug (Br Leaf d k Leaf) fs)) = insert k (set (keys (plug Leaf fs)))"
    by (auto simp: keys_plug)
qed

lemma keys_build: "keys (build (nodes u)) = keys u"
  by (simp add: keys_nodes build_nodes)

lemma keys_plug_build: "keys (plug (build (nodes u)) fs) = keys (plug u fs)"
  by (simp add: keys_plug keys_build)

lemma addrs_plug_build: "addrs (plug (build (nodes u)) fs) = addrs (plug u fs)"
  by (simp add: addrs_nodes nodes_plug build_nodes)

lemma tsize_build: "tsize (build (nodes u)) = tsize u"
  by (simp add: tsize_addrs addrs_nodes build_nodes)

subsection \<open>The splice\<close>

lemma keys_del_min: "t \<noteq> Leaf \<Longrightarrow> keys t = snd (fst (del_min t)) # keys (snd (del_min t))"
  by (simp add: keys_nodes nodes_del_min[of t])

lemma keys_del_max: "t \<noteq> Leaf \<Longrightarrow> keys t = keys (snd (del_max t)) @ [snd (fst (del_max t))]"
  by (simp add: keys_nodes nodes_del_max[of t])

lemma keys_splice: "keys (splice_tree b (Br l a k r)) = keys l @ keys r"
  using keys_del_min[of r] keys_del_max[of l] by auto

lemma addrs_splice:
  "distinct (addrs (Br l a k r)) \<Longrightarrow>
   distinct (addrs (splice_tree b (Br l a k r))) \<and>
   set (addrs (splice_tree b (Br l a k r))) = set (addrs (Br l a k r)) - {victim b (Br l a k r)}"
  using addrs_del_min[of r] addrs_del_max[of l] by auto

lemma tsize_splice: "tsize (splice_tree b (Br l a k r)) = tsize l + tsize r"
  using addrs_del_min[of r] addrs_del_max[of l] by (auto simp: tsize_addrs)




lemma bst_plug_splice:
  assumes "bst (plug (Br l a k r) fs)"
  shows "bst (plug (splice_tree b (Br l a k r)) fs)"
    and "set (keys (plug (splice_tree b (Br l a k r)) fs)) = set (keys (plug (Br l a k r) fs)) - {k}"
proof -
  from assms have s: "sorted_wrt (<) (map snd (before fs) @ (keys l @ k # keys r) @ map snd (after fs))"
    by (simp add: bst_sorted keys_plug)
  then show "bst (plug (splice_tree b (Br l a k r)) fs)"
    unfolding bst_sorted keys_plug keys_splice by (auto simp: sorted_wrt_append)
  from s have "k \<notin> set (map snd (before fs))" "k \<notin> set (keys l)" "k \<notin> set (keys r)"
    "k \<notin> set (map snd (after fs))"
    by (auto simp: sorted_wrt_append)
  then show "set (keys (plug (splice_tree b (Br l a k r)) fs)) = set (keys (plug (Br l a k r) fs)) - {k}"
    unfolding keys_plug keys_splice by auto
qed

subsection \<open>The scapegoat walk\<close>

lemma find_sg_split:
  "find_sg dh u i fs = (u', hs) \<Longrightarrow>
   \<exists>gs. fs = gs @ hs \<and> u' = plug u gs
     \<and> (hs = [] \<or> i + length gs > dh (tsize u'))
     \<and> (\<forall>j<length gs. \<not> i + j > dh (tsize (plug u (take j gs))))"
proof (induction fs arbitrary: u i)
  case Nil
  then show ?case by simp
next
  case (Cons f fs)
  show ?case
  proof (cases "i > dh (tsize u)")
    case True
    with Cons.prems show ?thesis by (intro exI[of _ "[]"]) auto
  next
    case False
    with Cons.prems have "find_sg dh (fill f u) (i + 1) fs = (u', hs)" by simp
    from Cons.IH[OF this] obtain gs where b: "fs = gs @ hs" "u' = plug (fill f u) gs"
      "hs = [] \<or> i + 1 + length gs > dh (tsize u')"
      "\<forall>j<length gs. \<not> i + 1 + j > dh (tsize (plug (fill f u) (take j gs)))" by blast
    have "\<forall>j<length (f # gs). \<not> i + j > dh (tsize (plug u (take j (f # gs))))"
    proof (intro allI impI)
      fix j assume j: "j < length (f # gs)"
      show "\<not> i + j > dh (tsize (plug u (take j (f # gs))))"
      proof (cases j)
        case 0
        then show ?thesis using False by simp
      next
        case (Suc j')
        then show ?thesis using b(4)[rule_format, of j'] j by simp
      qed
    qed
    then show ?thesis using b(1,2,3) by (intro exI[of _ "f # gs"]) auto
  qed
qed



lemma wf_tree_fresh: "wf_tree s t \<Longrightarrow> next_addr s \<notin> set (addrs t)"
  by (auto simp: wf_tree_def list_all_iff)

lemma search_wf: "wf_tree s t \<Longrightarrow> search s k = Some (k \<in> set (keys t))"
  by (simp add: search_def wf_tree_def search_loop_stored)

lemma in_range_Num [simp]: "in_range (Num a) = (1 / 2 < a \<and> a < 1)"
  by (simp add: in_range_def)

lemma in_range_cases: "in_range x \<Longrightarrow> \<exists>a. x = Num a \<and> 1 / 2 < a \<and> a < 1"
  by (cases x) (simp_all add: in_range_def)

lemma ctor_Num:
  "ScapegoatTree_ctor (Num a) =
     (if a \<le> 1 / 2 \<or> 1 \<le> a then Inl InvalidArgument
      else Inr \<lparr>heap = Map.empty, next_addr = 0, root_f = None, size_f = 0, maxSize = 0,
                alpha = Num a, replaceWithSucc = True\<rparr>)"
  by (simp add: ScapegoatTree_ctor_def dle_def dge_def kMinAlpha_def kMaxAlpha_def)

lemma ctor_wf: "ScapegoatTree_ctor (Num a) = Inr s \<Longrightarrow> wf_tree s Leaf \<and> alpha s = Num a"
  by (auto simp: ctor_Num wf_tree_def split: if_splits)

lemma rebuild_wf:
  assumes wf: "wf_tree s (plug u hs)" and ne: "u \<noteq> Leaf \<or> hs = []"
  shows "\<exists>s'. rebuild s \<lparr>scapegoat = rootp u, parent = prev_of hs, treeSize = tsize u\<rparr> = Some s'
      \<and> wf_tree s' (plug (build (nodes u)) hs)
      \<and> maxSize s' = (if hs = [] then size_f s else maxSize s)
      \<and> size_f s' = size_f s \<and> alpha s' = alpha s
      \<and> replaceWithSucc s' = replaceWithSucc s \<and> next_addr s' = next_addr s"
proof -
  let ?b = "build (nodes u)"
  from wf have st: "stored (heap s) (plug u hs)" and di: "distinct (addrs (plug u hs))"
    and ro: "root_f s = rootp (plug u hs)"
    and lt: "list_all (\<lambda>a. a < next_addr s) (addrs (plug u hs))"
    and no: "\<forall>a. a \<notin> set (addrs (plug u hs)) \<longrightarrow> heap s a = None"
    and bs: "bst (plug u hs)" and sz: "size_f s = tsize (plug u hs)"
    and al: "in_range (alpha s)"
    by (auto simp: wf_tree_def)
  have fr: "next_addr s \<notin> set (addrs (plug u hs))" by (rule wf_tree_fresh[OF wf])
  have bs': "bst (plug ?b hs)" using bs by (simp add: bst_sorted keys_plug_build)
  have sz': "tsize (plug ?b hs) = tsize (plug u hs)" by (simp add: tsize_addrs addrs_plug_build)
  show ?thesis
  proof (cases hs)
    case Nil
    from rebuild_root[of s u] st di fr Nil obtain h' where
      r: "rebuild s \<lparr>scapegoat = rootp u, parent = None, treeSize = tsize u\<rparr> =
            Some (s\<lparr>heap := h', root_f := rootp ?b, maxSize := size_f s\<rparr>)"
      and s': "stored h' ?b"
      and o: "\<forall>a. a \<notin> set (addrs u) \<and> a \<noteq> next_addr s \<longrightarrow> h' a = heap s a"
      and d: "h' (next_addr s) = None" by auto
    have no': "\<forall>a. a \<notin> set (addrs ?b) \<longrightarrow> h' a = None"
      using o d no Nil by (auto simp: addrs_build addrs_nodes[symmetric])
    have "wf_tree (s\<lparr>heap := h', root_f := rootp ?b, maxSize := size_f s\<rparr>) (plug ?b hs)"
      using s' di lt no' bs' sz sz' al Nil
      by (simp add: wf_tree_def addrs_build addrs_nodes[symmetric])
    then show ?thesis using r Nil by simp
  next
    case (Cons f fs)
    with ne have un: "u \<noteq> Leaf" by simp
    from rebuild_inner[of s u f fs] st di fr un Cons obtain h' where
      r: "rebuild s \<lparr>scapegoat = rootp u, parent = Some (faddr f), treeSize = tsize u\<rparr> =
            Some (s\<lparr>heap := h'\<rparr>)"
      and s': "stored h' (plug ?b (f # fs))"
      and o: "\<forall>a. a \<notin> set (addrs (plug u (f # fs))) \<and> a \<noteq> next_addr s \<longrightarrow> h' a = heap s a"
      and d: "h' (next_addr s) = None" by auto
    have ad: "addrs (plug ?b (f # fs)) = addrs (plug u (f # fs))" by (rule addrs_plug_build)
    have no': "\<forall>a. a \<notin> set (addrs (plug ?b (f # fs))) \<longrightarrow> h' a = None"
      unfolding ad using o d no Cons by auto
    have rt: "root_f s = rootp (plug ?b (f # fs))"
      using ro Cons rootp_plug_Cons[of u f fs ?b] by simp
    have "wf_tree (s\<lparr>heap := h'\<rparr>) (plug ?b (f # fs))"
      unfolding wf_tree_def ad
      using s' di lt no'[unfolded ad] bs' sz sz' al Cons rt
      by (simp del: plug.simps)
    then show ?thesis using r Cons by simp
  qed
qed

lemma wire_wf:
  assumes wf: "wf_tree s t" and de: "descend k t [] = Some fs"
  shows "\<exists>s'. insert_wire s k (prev_of fs) = Some s'
      \<and> wf_tree s' (plug (Br Leaf (next_addr s) k Leaf) fs) \<and> t = plug Leaf fs
      \<and> set (keys (plug (Br Leaf (next_addr s) k Leaf) fs)) = insert k (set (keys t))
      \<and> maxSize s' = max (maxSize s) (size_f s + 1) \<and> size_f s' = size_f s + 1
      \<and> alpha s' = alpha s \<and> replaceWithSucc s' = replaceWithSucc s
      \<and> next_addr s' = next_addr s + 1"
proof -
  let ?new = "Br Leaf (next_addr s) k Leaf"
  from descend_Some[OF de] have t: "plug Leaf fs = t" and fi: "list_all (fits k) fs" by auto
  from wf t have st: "stored (heap s) (plug Leaf fs)" and di: "distinct (addrs (plug Leaf fs))"
    and ro: "root_f s = rootp (plug Leaf fs)"
    and lt: "list_all (\<lambda>a. a < next_addr s) (addrs (plug Leaf fs))"
    and no: "\<forall>a. a \<notin> set (addrs (plug Leaf fs)) \<longrightarrow> heap s a = None"
    and bs: "bst (plug Leaf fs)" and sz: "size_f s = tsize (plug Leaf fs)"
    and al: "in_range (alpha s)"
    by (auto simp: wf_tree_def)
  have fr: "next_addr s \<notin> set (addrs (plug Leaf fs))" using wf_tree_fresh[OF wf] t by simp
  from insert_wire_plug[OF st di fr fi ro] obtain s' where
    iw: "insert_wire s k (prev_of fs) = Some s'"
    and s': "stored (heap s') (plug ?new fs)"
    and r': "root_f s' = rootp (plug ?new fs)"
    and o: "\<forall>a. a \<notin> set (addrs (plug Leaf fs)) \<and> a \<noteq> next_addr s \<longrightarrow> heap s' a = heap s a"
    and rest: "next_addr s' = next_addr s + 1" "size_f s' = size_f s + 1"
      "maxSize s' = max (maxSize s) (size_f s + 1)" "alpha s' = alpha s"
      "replaceWithSucc s' = replaceWithSucc s" by blast
  have ad: "set (addrs (plug ?new fs)) = insert (next_addr s) (set (addrs (plug Leaf fs)))"
    by (auto simp: addrs_plug)
  have di': "distinct (addrs (plug ?new fs))"
    using di fr by (auto simp: addrs_plug)
  have lt': "list_all (\<lambda>a. a < next_addr s') (addrs (plug ?new fs))"
    using lt rest(1) by (auto simp: list_all_iff ad)
  have no': "\<forall>a. a \<notin> set (addrs (plug ?new fs)) \<longrightarrow> heap s' a = None"
    using o no by (auto simp: ad)
  have sz': "size_f s' = tsize (plug ?new fs)"
    using sz rest(2) by (simp add: tsize_plug)
  have "wf_tree s' (plug ?new fs)"
    unfolding wf_tree_def
    using s' r' di' lt' no' bst_plug_insert(1)[OF bs fi] sz' al rest(4) by simp
  then show ?thesis
    using iw t bst_plug_insert(2)[OF bs fi, of "next_addr s"] rest by auto
qed

lemma plug_not_Leaf: "u \<noteq> Leaf \<Longrightarrow> plug u fs \<noteq> Leaf"
  by (induction fs arbitrary: u) auto





lemma insert_key_models:
  assumes mo: "models a s g"
  shows "\<exists>s'. insert_key fp s k = Some (fst (g_insert fp a g k), s')
      \<and> models a s' (snd (g_insert fp a g k))
      \<and> fst (g_insert fp a g k) = (k \<notin> set (keys (g_tree g)))
      \<and> set (keys (g_tree (snd (g_insert fp a g k)))) = insert k (set (keys (g_tree g)))
      \<and> size_f s' = (if k \<in> set (keys (g_tree g)) then size_f s else size_f s + 1)"
proof -
  define t where "t = g_tree g"
  from mo have wf: "wf_tree s t" and gn: "g_next g = next_addr s" and gm: "g_max g = maxSize s"
    and gs: "g_succ g = replaceWithSucc s" and aa: "alpha s = Num a"
    by (auto simp: models_def t_def)
  from wf have st: "stored (heap s) t" and ro: "root_f s = rootp t" and bs: "bst t"
    and sz: "size_f s = tsize t" and ir: "in_range (alpha s)"
    by (auto simp: wf_tree_def)
  from ir aa have al: "1 / 2 < a" "a < 1" by simp_all
  have a0: "0 < a" using al by simp
  have il: "insert_loop (heap s) k [None] None (root_f s) =
      Some (map_option (\<lambda>fs'. (path_of fs', prev_of fs')) (descend k t []))"
    using insert_loop_stored[OF st, of k "[]"] ro by simp
  show ?thesis
  proof (cases "descend k t []")
    case None
    then have kin: "k \<in> set (keys t)" using descend_None[OF bs, of k "[]"] by simp
    have "insert_key fp s k = Some (False, s)" by (simp add: insert_key_def il None)
    moreover have "g_insert fp a g k = (False, g)" using None by (simp add: g_insert_def t_def)
    ultimately show ?thesis using kin mo
      by (intro exI[of _ s]) (auto simp: t_def)
  next
    case (Some fs)
    then have kni: "k \<notin> set (keys t)" using descend_None[OF bs, of k "[]"] by simp
    let ?new = "Br Leaf (next_addr s) k Leaf"
    let ?t1 = "plug ?new fs"
    from wire_wf[OF wf Some] obtain s1 where
      iw: "insert_wire s k (prev_of fs) = Some s1" and wf1: "wf_tree s1 ?t1"
      and t: "t = plug Leaf fs" and ks: "set (keys ?t1) = insert k (set (keys t))"
      and ms: "maxSize s1 = max (maxSize s) (size_f s + 1)" and sz1: "size_f s1 = size_f s + 1"
      and al1: "alpha s1 = alpha s" and rs1: "replaceWithSucc s1 = replaceWithSucc s"
      and na1: "next_addr s1 = next_addr s + 1"
      by blast
    have aa1: "alpha s1 = Num a" using al1 aa by simp
    have dh: "getAlphaDeepHeight fp s1 (size_f s1) = Some (fp_deep fp a (size_f s + 1))"
      using getAlphaDeepHeight_adh[OF aa1 a0 al(2), of "size_f s1" fp] sz1 by simp
    have len: "length (path_of fs) = Suc (length fs)" by (simp add: path_of_def)
    show ?thesis
    proof (cases "1 \<le> length fs \<and> fp_deep fp a (size_f s + 1) < length fs")
      case False
      have ik: "insert_key fp s k = Some (True, s1)"
        using False by (auto simp: insert_key_def il Some iw dh len Let_def)
      have "g_insert fp a g k = (True, \<lparr>g_tree = ?t1, g_next = next_addr s + 1,
          g_max = max (maxSize s) (size_f s + 1), g_succ = replaceWithSucc s\<rparr>)"
        using False Some sz gn gm gs
        by (auto simp: g_insert_def t_def[symmetric] Let_def)
      then show ?thesis using ik kni ks wf1 aa1 rs1 sz1 na1 ms
        by (intro exI[of _ s1]) (auto simp: models_def t_def[symmetric])
    next
      case True
      then obtain f fs' where fs: "fs = f # fs'" by (cases fs) auto
      define u where "u = fst (find_sg (fp_deep fp a) (fill f ?new) 1 fs')"
      define hs where "hs = snd (find_sg (fp_deep fp a) (fill f ?new) 1 fs')"
      have fsg: "find_sg (fp_deep fp a) (fill f ?new) 1 fs' = (u, hs)" by (simp add: u_def hs_def)
      from find_sg_split[OF fsg] obtain gs where
        g: "fs' = gs @ hs" "u = plug (fill f ?new) gs" by blast
      have t1u: "?t1 = plug u hs" using fs g plug_append[of ?new "f # gs" hs] by simp
      have un: "u \<noteq> Leaf" using g(2) plug_not_Leaf[of "fill f ?new" gs] by simp
      have st1: "stored (heap s1) (plug ?new (f # fs'))" and di1: "distinct (addrs (plug ?new (f # fs')))"
        using wf1 fs by (auto simp: wf_tree_def)
      have fsc: "findScapegoat fp s1 (path_of fs) =
         Some \<lparr>scapegoat = rootp u, parent = prev_of hs, treeSize = tsize u\<rparr>"
        using findScapegoat_stored[OF st1 di1 aa1 a0 al(2), of fp] fs by (simp add: u_def hs_def)
      from rebuild_wf[of s1 u hs] wf1 t1u un obtain s2 where
        rb: "rebuild s1 \<lparr>scapegoat = rootp u, parent = prev_of hs, treeSize = tsize u\<rparr> = Some s2"
        and wf2: "wf_tree s2 (plug (build (nodes u)) hs)"
        and ms2: "maxSize s2 = (if hs = [] then size_f s1 else maxSize s1)"
        and sz2: "size_f s2 = size_f s1" and al2: "alpha s2 = alpha s1"
        and rs2: "replaceWithSucc s2 = replaceWithSucc s1"
        and na2: "next_addr s2 = next_addr s1" by auto
      let ?t2 = "plug (build (nodes u)) hs"
      have ik: "insert_key fp s k = Some (True, s2)"
        using True by (auto simp: insert_key_def il Some iw dh len Let_def fsc rb)
      have ks2: "set (keys ?t2) = insert k (set (keys t))"
        using ks t1u by (simp add: keys_plug_build)
      have "g_insert fp a g k = (True, \<lparr>g_tree = ?t2, g_next = next_addr s + 1,
          g_max = (if hs = [] then size_f s + 1 else max (maxSize s) (size_f s + 1)),
          g_succ = replaceWithSucc s\<rparr>)"
        using True Some sz gn gm gs fs
        by (auto simp: g_insert_def t_def[symmetric] Let_def u_def hs_def)
      then show ?thesis using ik kni ks2 wf2 aa1 al2 rs1 rs2 sz1 sz2 na1 na2 ms ms2
        by (intro exI[of _ s2]) (auto simp: models_def t_def[symmetric])
    qed
  qed
qed

lemma splice_wf:
  assumes wf: "wf_tree s t" and lo: "locate k t [] = Some (u, fs)"
  shows "\<exists>s'. remove_splice s (prev_of fs) (rootp u) = Some s'
      \<and> wf_tree (s'\<lparr>size_f := size_f s - 1\<rparr>) (plug (splice_tree (replaceWithSucc s) u) fs)
      \<and> t = plug u fs \<and> 0 < size_f s \<and> size_f s' = size_f s \<and> maxSize s' = maxSize s
      \<and> alpha s' = alpha s \<and> next_addr s' = next_addr s
      \<and> set (keys (plug (splice_tree (replaceWithSucc s) u) fs)) = set (keys t) - {k}
      \<and> replaceWithSucc s' = (replaceWithSucc s \<noteq> two_children u)
      \<and> heap s' (victim (replaceWithSucc s) u) = None"
proof -
  from locate_Some[OF lo] obtain l a r where t: "plug u fs = t" and u: "u = Br l a k r" by auto
  define b where "b = replaceWithSucc s"
  define u' where "u' = splice_tree b u"
  from wf t have st: "stored (heap s) (plug u fs)" and di: "distinct (addrs (plug u fs))"
    and ro: "root_f s = rootp (plug u fs)"
    and lt: "list_all (\<lambda>a. a < next_addr s) (addrs (plug u fs))"
    and no: "\<forall>a. a \<notin> set (addrs (plug u fs)) \<longrightarrow> heap s a = None"
    and bs: "bst (plug u fs)" and sz: "size_f s = tsize (plug u fs)"
    and al: "in_range (alpha s)"
    by (auto simp: wf_tree_def)
  from st have su: "stored (heap s) u" and sc: "stored_ctx (heap s) (rootp u) fs"
    by (simp_all add: stored_plug)
  from di have du: "distinct (addrs u)" and dc: "distinct (caddrs fs)"
    and uc: "set (addrs u) \<inter> set (caddrs fs) = {}"
    by (simp_all add: distinct_plug)
  have ld: "load (heap s) (Some a) = Some \<lparr>key = k, left = rootp l, right = rootp r\<rparr>"
    using su u by (simp add: load_def)
  have spos: "0 < size_f s" using sz u by (simp add: tsize_plug)
  from addrs_splice[of l a k r b] du u have du': "distinct (addrs u')"
    and au': "set (addrs u') = set (addrs u) - {victim b u}" by (simp_all add: u'_def)
  have vu: "victim b u \<in> set (addrs u)"
    using u addrs_del_min[of r] addrs_del_max[of l] by auto
  have di': "distinct (addrs (plug u' fs))"
    using du' dc uc au' by (auto simp: distinct_plug)
  have lt': "list_all (\<lambda>a. a < next_addr s) (addrs (plug u' fs))"
    using lt au' by (auto simp: list_all_iff set_addrs_plug)
  have bs': "bst (plug u' fs)" and ks': "set (keys (plug u' fs)) = set (keys t) - {k}"
    using bst_plug_splice[of l a k r fs b] bs u t by (simp_all add: u'_def)
  have sz': "size_f s - 1 = tsize (plug u' fs)"
    using sz u tsize_splice[of b l a k r] by (simp add: tsize_plug u'_def)
  have rt': "rootp (plug u' fs) = (if fs = [] then rootp u' else root_f s)"
    using ro by (simp add: rootp_plug)
  show ?thesis
  proof (cases "l \<noteq> Leaf \<and> r \<noteq> Leaf")
    case True
    from two_children_stored[of s l a k r] su du u True obtain h' where
      rn: "removeNodeWithTwoChildren s (Some a) =
             Some (s\<lparr>heap := h', replaceWithSucc := \<not> replaceWithSucc s\<rparr>)"
      and s': "stored h' u'"
      and o: "\<forall>x. x \<notin> set (addrs u) \<longrightarrow> h' x = heap s x"
      and v: "h' (victim b u) = None" by (auto simp: b_def u'_def)
    let ?s' = "s\<lparr>heap := h', replaceWithSucc := \<not> replaceWithSucc s\<rparr>"
    have rs: "remove_splice s (prev_of fs) (rootp u) = Some ?s'"
      using True rn u by (simp add: remove_splice_def ld)
    have ru: "rootp u' = rootp u" using True u by (simp add: u'_def)
    have sc': "stored_ctx h' (rootp u') fs"
      unfolding ru using o uc by (intro stored_ctx_cong[OF sc]) auto
    have st': "stored h' (plug u' fs)" using s' sc' by (simp add: stored_plug)
    have no': "\<forall>x. x \<notin> set (addrs (plug u' fs)) \<longrightarrow> h' x = None"
      using o v no au' by (auto simp: set_addrs_plug)
    have rt: "root_f s = rootp (plug u' fs)"
      using rt' ru ro by (cases fs) auto
    have "wf_tree (?s'\<lparr>size_f := size_f s - 1\<rparr>) (plug u' fs)"
      unfolding wf_tree_def using st' rt di' lt' no' bs' sz' al by simp
    then show ?thesis
      using rs t spos ks' v True u by (simp add: b_def u'_def)
  next
    case False
    then have ch: "l = Leaf \<or> r = Leaf" by auto
    from without_child_stored[of s l a k r fs b] st di ch ro u obtain h' where
      rn: "removeNodeWithoutChild s (Some a) (prev_of fs) =
             Some (s\<lparr>root_f := rootp (plug u' fs), heap := h'\<rparr>)"
      and st': "stored h' (plug u' fs)"
      and o: "\<forall>x. x \<notin> set (addrs (plug u fs)) \<longrightarrow> h' x = heap s x"
      and v: "h' a = None" by (auto simp: u'_def)
    let ?s' = "s\<lparr>root_f := rootp (plug u' fs), heap := h'\<rparr>"
    have rs: "remove_splice s (prev_of fs) (rootp u) = Some ?s'"
      using False rn u by (auto simp: remove_splice_def ld)
    have va: "victim b u = a" using False u by auto
    have no': "\<forall>x. x \<notin> set (addrs (plug u' fs)) \<longrightarrow> h' x = None"
      using o v no au' va by (auto simp: set_addrs_plug)
    have "wf_tree (?s'\<lparr>size_f := size_f s - 1\<rparr>) (plug u' fs)"
      unfolding wf_tree_def using st' di' lt' no' bs' sz' al by simp
    then show ?thesis
      using rs t spos ks' v va False u by (auto simp: b_def u'_def)
  qed
qed


lemma nodes_Nil_iff: "(nodes t = []) = (t = Leaf)"
  by (cases t) auto

lemma dle_below: "dle (of_size fp n) (dmul fp (Num a) (of_size fp m)) = below fp a n m"
  by (simp add: dle_def dmul_def of_size_def below_def)

lemma remove_key_models:
  assumes mo: "models a s g"
  shows "\<exists>s'. remove_key fp s k = Some (fst (g_remove fp a g k), s')
      \<and> models a s' (snd (g_remove fp a g k))
      \<and> fst (g_remove fp a g k) = (k \<in> set (keys (g_tree g)))
      \<and> set (keys (g_tree (snd (g_remove fp a g k)))) = set (keys (g_tree g)) - {k}
      \<and> size_f s' = (if k \<in> set (keys (g_tree g)) then size_f s - 1 else size_f s)"
proof -
  define t where "t = g_tree g"
  from mo have wf: "wf_tree s t" and gn: "g_next g = next_addr s" and gm: "g_max g = maxSize s"
    and gs: "g_succ g = replaceWithSucc s" and aa: "alpha s = Num a"
    by (auto simp: models_def t_def)
  from wf have st: "stored (heap s) t" and ro: "root_f s = rootp t" and bs: "bst t"
    and sz: "size_f s = tsize t"
    by (auto simp: wf_tree_def)
  have rl: "remove_loop (heap s) k None (root_f s) =
      Some (map_option (\<lambda>(u', fs'). (prev_of fs', rootp u')) (locate k t []))"
    using remove_loop_stored[OF st, of k "[]"] ro by simp
  show ?thesis
  proof (cases "locate k t []")
    case None
    then have kni: "k \<notin> set (keys t)" using locate_None[OF bs, of k "[]"] by simp
    have "remove_key fp s k = Some (False, s)" by (simp add: remove_key_def rl None)
    moreover have "g_remove fp a g k = (False, g)" using None by (simp add: g_remove_def t_def)
    ultimately show ?thesis using kni mo
      by (intro exI[of _ s]) (auto simp: t_def)
  next
    case (Some p)
    obtain u fs where p: "p = (u, fs)" by (cases p)
    have lo: "locate k t [] = Some (u, fs)" using Some p by simp
    then have kin: "k \<in> set (keys t)" using locate_None[OF bs, of k "[]"] by auto
    let ?t1 = "plug (splice_tree (replaceWithSucc s) u) fs"
    from splice_wf[OF wf lo] obtain s1 where
      rs: "remove_splice s (prev_of fs) (rootp u) = Some s1"
      and wf1: "wf_tree (s1\<lparr>size_f := size_f s - 1\<rparr>) ?t1"
      and t: "t = plug u fs" and spos: "0 < size_f s" and sz1: "size_f s1 = size_f s"
      and ms1: "maxSize s1 = maxSize s" and al1: "alpha s1 = alpha s"
      and ks: "set (keys ?t1) = set (keys t) - {k}"
      and rs1: "replaceWithSucc s1 = (replaceWithSucc s \<noteq> two_children u)"
      and na1: "next_addr s1 = next_addr s" by blast
    let ?s1 = "s1\<lparr>size_f := size_f s - 1\<rparr>"
    have ds: "decr_size (size_f s1) = size_f s - 1" using spos sz1 by (simp add: decr_size_def)
    have cmp: "dle (of_size fp (size_f s - 1)) (dmul fp (alpha s1) (of_size fp (maxSize s1)))
        = below fp a (size_f s - 1) (maxSize s)"
      by (simp add: al1 aa ms1 dle_below)
    show ?thesis
    proof (cases "below fp a (size_f s - 1) (maxSize s)")
      case True
      from wf1 have r1: "root_f ?s1 = rootp ?t1" and z1: "size_f ?s1 = tsize ?t1"
        by (auto simp: wf_tree_def)
      from rebuild_wf[of ?s1 ?t1 "[]"] wf1 obtain s2 where
        rb: "rebuild ?s1 \<lparr>scapegoat = rootp ?t1, parent = None, treeSize = tsize ?t1\<rparr> = Some s2"
        and wf2: "wf_tree s2 (build (nodes ?t1))"
        and ms2: "maxSize s2 = size_f ?s1" and sz2: "size_f s2 = size_f ?s1"
        and al2: "alpha s2 = alpha ?s1"
        and rs2: "replaceWithSucc s2 = replaceWithSucc ?s1"
        and na2: "next_addr s2 = next_addr ?s1" by auto
      have rk: "remove_key fp s k = Some (True, s2)"
        using True rb r1[symmetric] z1[symmetric] cmp
        by (simp add: remove_key_def rl Some p rs ds Let_def)
      have "set (keys (build (nodes ?t1))) = set (keys t) - {k}"
        using ks by (simp add: keys_build)
      moreover have "g_remove fp a g k = (True, \<lparr>g_tree = build (nodes ?t1), g_next = next_addr s,
          g_max = size_f s - 1, g_succ = (replaceWithSucc s \<noteq> two_children u)\<rparr>)"
        using True lo sz gn gm gs
        by (auto simp: g_remove_def t_def[symmetric] Let_def)
      ultimately show ?thesis using rk kin wf2 al1 al2 aa sz2 rs1 rs2 na1 na2 ms2
        by (intro exI[of _ s2]) (auto simp: models_def t_def[symmetric])
    next
      case False
      have rk: "remove_key fp s k = Some (True, ?s1)"
        using False cmp by (simp add: remove_key_def rl Some p rs ds Let_def)
      have "g_remove fp a g k = (True, \<lparr>g_tree = ?t1, g_next = next_addr s,
          g_max = maxSize s, g_succ = (replaceWithSucc s \<noteq> two_children u)\<rparr>)"
        using False lo sz gn gm gs
        by (auto simp: g_remove_def t_def[symmetric] Let_def)
      then show ?thesis using rk kin ks wf1 al1 aa rs1 na1 ms1
        by (intro exI[of _ ?s1]) (auto simp: models_def t_def[symmetric])
    qed
  qed
qed

lemma ctor_models: "ScapegoatTree_ctor (Num a) = Inr s \<Longrightarrow> models a s g_init"
  using ctor_wf[of a s]
  by (auto simp: models_def g_init_def ctor_Num split: if_splits)

lemma do_call_models:
  assumes "models a s g"
  shows "\<exists>s'. do_call fp s c = Some (fst (g_call fp a g c), s')
      \<and> models a s' (snd (g_call fp a g c))
      \<and> fst (g_call fp a g c) # bs = expected (set (keys (g_tree g))) [c] @ bs
      \<and> set (keys (g_tree (snd (g_call fp a g c)))) = live_after (set (keys (g_tree g))) [c]"
proof (cases c)
  case (Insert k)
  from insert_key_models[OF assms, of fp k] show ?thesis using Insert by auto
next
  case (Remove k)
  from remove_key_models[OF assms, of fp k] show ?thesis using Remove by auto
qed

lemma expected_Cons: "expected S (c # cs) = expected S [c] @ expected (live_after S [c]) cs"
  by (cases c) auto

lemma live_after_Cons: "live_after S (c # cs) = live_after (live_after S [c]) cs"
  by (cases c) auto

lemma g_run_Cons:
  "g_run fp a g (c # cs) =
     (fst (g_call fp a g c) # fst (g_run fp a (snd (g_call fp a g c)) cs),
      snd (g_run fp a (snd (g_call fp a g c)) cs))"
  by (simp split: prod.splits)

declare g_run.simps(2) [simp del]

lemma run_models:
  "models a s g \<Longrightarrow>
   \<exists>s'. run fp s cs = Some (fst (g_run fp a g cs), s') \<and> models a s' (snd (g_run fp a g cs))
      \<and> fst (g_run fp a g cs) = expected (set (keys (g_tree g))) cs
      \<and> set (keys (g_tree (snd (g_run fp a g cs)))) = live_after (set (keys (g_tree g))) cs"
proof (induction cs arbitrary: s g)
  case Nil
  then show ?case by simp
next
  case (Cons c cs)
  let ?g1 = "snd (g_call fp a g c)"
  from do_call_models[OF Cons.prems, of fp c "[]"] obtain s1 where
    d: "do_call fp s c = Some (fst (g_call fp a g c), s1)" and m1: "models a s1 ?g1"
    and e1: "[fst (g_call fp a g c)] = expected (set (keys (g_tree g))) [c]"
    and l1: "set (keys (g_tree ?g1)) = live_after (set (keys (g_tree g))) [c]"
    by auto
  from Cons.IH[OF m1] obtain s' where
    r: "run fp s1 cs = Some (fst (g_run fp a ?g1 cs), s')"
    and m': "models a s' (snd (g_run fp a ?g1 cs))"
    and e': "fst (g_run fp a ?g1 cs) = expected (set (keys (g_tree ?g1))) cs"
    and l': "set (keys (g_tree (snd (g_run fp a ?g1 cs)))) = live_after (set (keys (g_tree ?g1))) cs"
    by blast
  have e: "fst (g_run fp a g (c # cs)) = expected (set (keys (g_tree g))) (c # cs)"
    using e1 e' l1 by (subst expected_Cons) (simp add: g_run_Cons)
  have l: "set (keys (g_tree (snd (g_run fp a g (c # cs))))) =
      live_after (set (keys (g_tree g))) (c # cs)"
    using l' l1 by (subst live_after_Cons) (simp add: g_run_Cons)
  have rr: "run fp s (c # cs) = Some (fst (g_run fp a g (c # cs)), s')"
    using d r by (simp add: g_run_Cons)
  have m'': "models a s' (snd (g_run fp a g (c # cs)))"
    using m' by (simp add: g_run_Cons)
  show ?case
    by (rule exI[of _ s']) (use rr m'' e l in simp)
qed

lemma reachable_models:
  assumes "ScapegoatTree_ctor (Num a) = Inr s0" and "run fp s0 cs = Some (bs, s)"
  shows "models a s (snd (g_run fp a g_init cs))" and "bs = expected {} cs"
    and "set (keys (g_tree (snd (g_run fp a g_init cs)))) = live_after {} cs"
  using run_models[OF ctor_models[OF assms(1)], of fp cs] assms(2)
  by (auto simp: g_init_def)

subsection \<open>The exact floating-point unit\<close>

lemma Rep_exact: "Rep_fpu exact_fpu = (adh, \<lambda>x. x)"
  unfolding exact_fpu_def by (rule Abs_fpu_inverse) (simp add: mono_def)

lemma exact_deep [simp]: "fp_deep exact_fpu = adh"
  by (simp add: fp_deep_def Rep_exact)

lemma exact_round [simp]: "fp_round exact_fpu x = x"
  by (simp add: fp_round_def Rep_exact)

lemma exact_below [simp]: "below exact_fpu a n m = (real n \<le> a * real m)"
  by (simp add: below_def)

lemma fp_round_mono: "x \<le> y \<Longrightarrow> fp_round fp x \<le> fp_round fp y"
  using Rep_fpu[of fp] by (auto simp: fp_round_def mono_def)

lemma fp_round_0 [simp]: "fp_round fp 0 = 0"
  using Rep_fpu[of fp] by (auto simp: fp_round_def)

lemma fp_round_nonneg: "0 \<le> x \<Longrightarrow> 0 \<le> fp_round fp x"
  using fp_round_mono[of 0 x fp] by simp

subsection \<open>Evaluating the alpha-deep height\<close>


lemma adh_58:
  "adh (29/50) 1 = 0" "adh (29/50) 2 = 1" "adh (29/50) 3 = 2" "adh (29/50) 4 = 2"
  "adh (29/50) 5 = 2" "adh (29/50) 6 = 3" "adh (29/50) 7 = 3" "adh (29/50) 8 = 3"
  "adh (29/50) 9 = 4" "adh (29/50) 10 = 4" "adh (29/50) 11 = 4" "adh (29/50) 12 = 4"
  "adh (29/50) 13 = 4" "adh (29/50) 14 = 4" "adh (29/50) 15 = 4" "adh (29/50) 16 = 5"
  by (rule adh_eq; simp add: power_divide)+

subsection \<open>The height invariant under exact arithmetic\<close>











subsection \<open>A unit that is exact on the sizes that occur\<close>







subsection \<open>verify\<close>





section \<open>Construction\<close>

lemma ctor_numbers:
  "(a \<le> 0.5 \<or> 1.0 \<le> a \<longrightarrow>
      ScapegoatTree_ctor (Num a) = Inl InvalidArgument \<and> checkInvalidAlpha (Num a) = Inl InvalidArgument) \<and>
   (0.5 < a \<and> a < 1.0 \<longrightarrow>
      (\<exists>s. ScapegoatTree_ctor (Num a) = Inr s \<and> alpha s = Num a \<and> root_f s = None \<and> size_f s = 0)
      \<and> checkInvalidAlpha (Num a) = Inr ())"
  by (auto simp: ScapegoatTree_ctor_def checkInvalidAlpha_def dle_def dge_def kMinAlpha_def
      kMaxAlpha_def)

lemma ctor_infinities:
  "ScapegoatTree_ctor PInf = Inl InvalidArgument" "ScapegoatTree_ctor NInf = Inl InvalidArgument"
  "checkInvalidAlpha PInf = Inl InvalidArgument" "checkInvalidAlpha NInf = Inl InvalidArgument"
  by (simp_all add: ScapegoatTree_ctor_def checkInvalidAlpha_def dle_def dge_def)

text \<open>
  C8. The claim holds for every balance factor that is a number or an infinity
  (\<open>ctor_numbers\<close>, \<open>ctor_infinities\<close>), but not for a NaN: a NaN is not within
  \<open>(0.5, 1.0)\<close>, yet both comparisons of the guard are false for it, so the constructor
  does not throw and stores the NaN as the balance factor; the guard of the generic tree
  lets it pass as well.
\<close>

theorem ctor_accepts_NaN:
  "ScapegoatTree_ctor NaN =
     Inr \<lparr>heap = Map.empty, next_addr = 0, root_f = None, size_f = 0, maxSize = 0,
          alpha = NaN, replaceWithSucc = True\<rparr>
   \<and> checkInvalidAlpha NaN = Inr () \<and> \<not> in_range NaN"
  by (simp add: ScapegoatTree_ctor_def checkInvalidAlpha_def dle_def dge_def in_range_def)

text \<open>The tree that holds a NaN is of no use: its first insertion converts a NaN to
  \<^verbatim>\<open>size_t\<close> in \<^verbatim>\<open>getAlphaDeepHeight\<close>, which is undefined.\<close>

lemma insert_on_NaN_tree:
  assumes "ScapegoatTree_ctor NaN = Inr s"
  shows "insert_key fp s k = None"
proof -
  from assms have s: "s = \<lparr>heap = Map.empty, next_addr = 0, root_f = None, size_f = 0,
      maxSize = 0, alpha = NaN, replaceWithSucc = True\<rparr>"
    by (simp add: ScapegoatTree_ctor_def dle_def dge_def)
  have il: "insert_loop Map.empty k [None] None None = Some (Some ([None], None))"
    by (subst insert_loop.simps) simp
  show ?thesis
    by (simp add: insert_key_def il insert_wire_def Let_def getAlphaDeepHeight_def s)
qed

section \<open>Sequences of calls on a fresh tree\<close>

lemma fresh_run_models:
  assumes "1 / 2 < a" and "a < 1"
  shows "\<exists>s. fresh_run fp (Num a) cs = Some (expected {} cs, s) \<and> models a s (snd (g_run fp a g_init cs))
      \<and> set (keys (g_tree (snd (g_run fp a g_init cs)))) = live_after {} cs"
proof -
  obtain s0 where c: "ScapegoatTree_ctor (Num a) = Inr s0"
    using assms by (auto simp: ctor_Num)
  from run_models[OF ctor_models[OF c], of fp cs] show ?thesis
    by (auto simp: fresh_run_def c g_init_def)
qed

lemma fresh_run_reachable:
  assumes "fresh_run fp (Num a) cs = Some (bs, s)"
  shows "models a s (snd (g_run fp a g_init cs))" and "bs = expected {} cs"
    and "set (keys (g_tree (snd (g_run fp a g_init cs)))) = live_after {} cs"
proof -
  from assms obtain s0 where c: "ScapegoatTree_ctor (Num a) = Inr s0" 
    and r: "run fp s0 cs = Some (bs, s)"
    by (auto simp: fresh_run_def split: sum.splits)
  from reachable_models[OF c r]
  show "models a s (snd (g_run fp a g_init cs))" and "bs = expected {} cs"
    and "set (keys (g_tree (snd (g_run fp a g_init cs)))) = live_after {} cs"
    by auto
qed

lemma successful_live:
  "(if successful k (zip cs (expected S cs)) = [] then k \<in> S
    else last (successful k (zip cs (expected S cs))) = Insert k) = (k \<in> live_after S cs)"
proof (induction cs arbitrary: S)
  case Nil
  then show ?case by (simp add: successful_def)
next
  case (Cons c cs)
  show ?case
  proof (cases c)
    case (Insert x)
    from Cons.IH[of "insert x S"] show ?thesis
      unfolding Insert by (auto simp: successful_def split: if_splits)
  next
    case (Remove x)
    from Cons.IH[of "S - {x}"] show ?thesis
      unfolding Remove by (auto simp: successful_def split: if_splits)
  qed
qed

lemma present_live: "present k (zip cs (expected {} cs)) = (k \<in> live_after {} cs)"
  using successful_live[of k cs "{}"] by (auto simp: present_def split: if_splits)

lemma fresh_run_search:
  assumes "1 / 2 < a" and "a < 1"
  shows "\<exists>s. fresh_run fp (Num a) cs = Some (expected {} cs, s)
      \<and> (\<forall>k. search s k = Some (k \<in> live_after {} cs))"
proof -
  from fresh_run_models[OF assms, of fp cs] obtain s where
    r: "fresh_run fp (Num a) cs = Some (expected {} cs, s)"
    and m: "models a s (snd (g_run fp a g_init cs))"
    and l: "set (keys (g_tree (snd (g_run fp a g_init cs)))) = live_after {} cs"
    by blast
  from m have "wf_tree s (g_tree (snd (g_run fp a g_init cs)))"
    by (simp add: models_def)
  from search_wf[OF this] l have "\<forall>k. search s k = Some (k \<in> live_after {} cs)"
    by simp
  with r show ?thesis by blast
qed

text \<open>
  C1. Whatever calls of \<^verbatim>\<open>insert\<close> and \<^verbatim>\<open>remove\<close> are made on a freshly constructed
  tree, every call returns (an insert \<open>true\<close> exactly when its key was absent, a remove
  \<open>true\<close> exactly when its key was present), and afterwards \<^verbatim>\<open>search(k)\<close> returns
  \<open>true\<close> for exactly the keys \<open>k\<close> whose most recent successful insert has not been
  followed by a successful remove, and \<open>false\<close> for every other key.
\<close>

theorem membership:
  assumes "1 / 2 < a" and "a < 1"
  shows "\<exists>bs s. fresh_run fp (Num a) cs = Some (bs, s) \<and> bs = expected {} cs
      \<and> (\<forall>k. search s k = Some (present k (zip cs bs)))"
proof -
  from fresh_run_search[OF assms, of fp cs] obtain s where
    r: "fresh_run fp (Num a) cs = Some (expected {} cs, s)"
    and l: "\<forall>k. search s k = Some (k \<in> live_after {} cs)"
    by blast
  from l have "\<forall>k. search s k = Some (present k (zip cs (expected {} cs)))"
    by (simp add: present_live)
  with r show ?thesis by blast
qed

theorem membership_witness:
  "\<exists>bs s. fresh_run exact_fpu (Num (3/5)) [Insert 1, Insert 2, Insert 2, Remove 1, Insert 1, Remove 2, Remove 2, Remove 7]
       = Some (bs, s)
     \<and> bs = [True, True, False, True, True, True, False, False]
     \<and> search s 1 = Some True \<and> search s 2 = Some False \<and> search s 7 = Some False"
proof -
  let ?cs = "[Insert 1, Insert 2, Insert 2, Remove 1, Insert 1, Remove 2, Remove 2, Remove 7]"
  from membership[of "3/5" exact_fpu ?cs] obtain bs s where
    r: "fresh_run exact_fpu (Num (3/5)) ?cs = Some (bs, s)" and b: "bs = expected {} ?cs"
    and k: "\<forall>k. search s k = Some (present k (zip ?cs bs))"
    by auto
  have b': "bs = [True, True, False, True, True, True, False, False]"
    using b by simp
  have "search s 1 = Some True" "search s 2 = Some False" "search s 7 = Some False"
    using k unfolding b' by (simp_all add: present_def successful_def)
  with r b' show ?thesis by blast
qed

section \<open>What verify checks\<close>







section \<open>Calls that fail\<close>

lemma insert_present:
  assumes "wf_tree s t" and "k \<in> set (keys t)"
  shows "insert_key fp s k = Some (False, s)"
proof -
  from assms(1) have st: "stored (heap s) t" and ro: "root_f s = rootp t" and bs: "bst t"
    by (auto simp: wf_tree_def)
  have "descend k t [] = None" using descend_None[OF bs, of k "[]"] assms(2) by simp
  with insert_loop_stored[OF st, of k "[]"] ro show ?thesis
    by (simp add: insert_key_def)
qed

lemma remove_absent:
  assumes "wf_tree s t" and "k \<notin> set (keys t)"
  shows "remove_key fp s k = Some (False, s)"
proof -
  from assms(1) have st: "stored (heap s) t" and ro: "root_f s = rootp t" and bs: "bst t"
    by (auto simp: wf_tree_def)
  have "locate k t [] = None" using locate_None[OF bs, of k "[]"] assms(2) by simp
  with remove_loop_stored[OF st, of k "[]"] ro show ?thesis
    by (simp add: remove_key_def)
qed

text \<open>
  C7. In every state \<open>s\<close> a fresh tree can reach: \<^verbatim>\<open>insert(k)\<close> for a key the tree
  contains returns \<open>false\<close> and the object, its store included, is left exactly as it
  was (so the structure, \<^verbatim>\<open>size\<close> and \<^verbatim>\<open>maxSize\<close> are unchanged); \<^verbatim>\<open>remove(k)\<close> for a key
  the tree does not contain returns \<open>false\<close> and leaves the object exactly as it was;
  and after any \<^verbatim>\<open>remove(k)\<close> a second \<^verbatim>\<open>remove(k)\<close> returns \<open>false\<close>.
\<close>

theorem failed_calls_unchanged:
  assumes "fresh_run fp (Num a) cs = Some (bs, s)"
  shows "(search s k = Some True \<longrightarrow> insert_key fp s k = Some (False, s))
       \<and> (search s k = Some False \<longrightarrow> remove_key fp s k = Some (False, s))
       \<and> (\<exists>b s'. remove_key fp s k = Some (b, s') \<and> remove_key fp s' k = Some (False, s'))"
proof -
  define g where "g = snd (g_run fp a g_init cs)"
  from fresh_run_reachable(1)[OF assms] have m: "models a s g" by (simp add: g_def)
  then have wf: "wf_tree s (g_tree g)" by (simp add: models_def)
  note sw = search_wf[OF wf, of k]
  from remove_key_models[OF m, of fp k] obtain s' where
    rk: "remove_key fp s k = Some (fst (g_remove fp a g k), s')"
    and m': "models a s' (snd (g_remove fp a g k))"
    and ks: "set (keys (g_tree (snd (g_remove fp a g k)))) = set (keys (g_tree g)) - {k}"
    by blast
  from m' have wf': "wf_tree s' (g_tree (snd (g_remove fp a g k)))"
    by (simp add: models_def)
  have "remove_key fp s' k = Some (False, s')"
    by (rule remove_absent[OF wf']) (simp add: ks)
  with rk have "\<exists>b s'. remove_key fp s k = Some (b, s') \<and> remove_key fp s' k = Some (False, s')"
    by blast
  then show ?thesis
    using sw insert_present[OF wf, of k] remove_absent[OF wf, of k] by simp
qed

theorem failed_calls_unchanged_witness:
  "\<exists>bs s. fresh_run exact_fpu (Num (3/5)) [Insert 5, Insert 3, Insert 8] = Some (bs, s)
     \<and> search s 3 = Some True \<and> insert_key exact_fpu s 3 = Some (False, s)
     \<and> search s 4 = Some False \<and> remove_key exact_fpu s 4 = Some (False, s)
     \<and> (\<exists>b s'. remove_key exact_fpu s 3 = Some (b, s') \<and> remove_key exact_fpu s' 3 = Some (False, s'))"
proof -
  let ?cs = "[Insert 5, Insert 3, Insert 8]"
  from fresh_run_search[of "3/5" exact_fpu ?cs] obtain s where
    r: "fresh_run exact_fpu (Num (3/5)) ?cs = Some (expected {} ?cs, s)"
    and k: "\<forall>k. search s k = Some (k \<in> live_after {} ?cs)"
    by auto
  have s3: "search s 3 = Some True" and s4: "search s 4 = Some False"
    using k by simp_all
  from failed_calls_unchanged[OF r, of 3] failed_calls_unchanged[OF r, of 4] s3 s4 r
  show ?thesis by simp
qed

section \<open>The insertion path and the scapegoat\<close>

lemma insert_loop_frames:
  assumes "wf_tree s t"
    and "insert_loop (heap s) k [None] None (root_f s) = Some (Some (path, prev))"
  shows "\<exists>fs. descend k t [] = Some fs \<and> path = path_of fs \<and> prev = prev_of fs"
  using insert_loop_stored[of "heap s" t k "[]"] assms by (auto simp: wf_tree_def)

lemma path_of_length [simp]: "length (path_of fs) = Suc (length fs)"
  by (simp add: path_of_def)

lemma path_of_sentinel:
  "last (path_of fs) = None" "None \<notin> set (butlast (path_of fs))" "path_of fs ! length fs = None"
  by (auto simp: path_of_def nth_append)




lemma findScapegoat_frames:
  assumes st: "stored (heap s1) (plug new (f # fs'))"
    and di: "distinct (addrs (plug new (f # fs')))"
    and a: "alpha s1 = Num a" "0 < a" "a < 1"
  shows "\<exists>gs hs. fs' = gs @ hs
     \<and> findScapegoat fp s1 (path_of (f # fs')) =
         Some \<lparr>scapegoat = rootp (plug new (f # gs)), parent = prev_of hs,
               treeSize = tsize (plug new (f # gs))\<rparr>
     \<and> (hs = [] \<or> Suc (length gs) > fp_deep fp a (tsize (plug new (f # gs))))
     \<and> (\<forall>j<length gs. \<not> Suc j > fp_deep fp a (tsize (plug new (f # take j gs))))"
proof -
  define u where "u = fst (find_sg (fp_deep fp a) (fill f new) 1 fs')"
  define hs where "hs = snd (find_sg (fp_deep fp a) (fill f new) 1 fs')"
  have fsg: "find_sg (fp_deep fp a) (fill f new) 1 fs' = (u, hs)" by (simp add: u_def hs_def)
  from find_sg_split[OF fsg] obtain gs where
    g: "fs' = gs @ hs" "u = plug (fill f new) gs"
    "hs = [] \<or> 1 + length gs > fp_deep fp a (tsize u)"
    "\<forall>j<length gs. \<not> 1 + j > fp_deep fp a (tsize (plug (fill f new) (take j gs)))"
    by blast
  have fsc: "findScapegoat fp s1 (path_of (f # fs')) =
      Some \<lparr>scapegoat = rootp u, parent = prev_of hs, treeSize = tsize u\<rparr>"
    using findScapegoat_stored[OF st di a, of fp] by (simp add: u_def hs_def)
  show ?thesis
    apply (rule exI[of _ gs], rule exI[of _ hs])
    using g fsc by simp
qed

text \<open>
  C9. In every state a fresh tree can reach, when the descent of \<^verbatim>\<open>insert\<close> ends without
  meeting the key and has pushed at least one real ancestor (\<open>insertionHeight \<ge> 1\<close>), the
  stack holds the \<^verbatim>\<open>nullptr\<close> sentinel at the bottom and nowhere else, and
  \<^verbatim>\<open>findScapegoat\<close> on it returns: it does not read or pop an empty stack and it
  terminates. The scapegoat it returns is not null, and when the parent it returns is the
  sentinel the scapegoat is the root.
\<close>

theorem findScapegoat_safe:
  assumes "fresh_run fp (Num a) cs = Some (bs, s)"
    and "insert_loop (heap s) k [None] None (root_f s) = Some (Some (path, prev))"
    and "1 \<le> length path - 1"
  shows "\<exists>s1 sg. insert_wire s k prev = Some s1 \<and> findScapegoat fp s1 path = Some sg
     \<and> scapegoat sg \<noteq> None \<and> 2 \<le> length path
     \<and> last path = None \<and> None \<notin> set (butlast path)
     \<and> (parent sg = None \<longrightarrow> scapegoat sg = root_f s1)"
proof -
  define t where "t = g_tree (snd (g_run fp a g_init cs))"
  from fresh_run_reachable(1)[OF assms(1)] have wf: "wf_tree s t" and aa: "alpha s = Num a"
    by (simp_all add: models_def t_def)
  from insert_loop_frames[OF wf assms(2)] obtain fs where
    de: "descend k t [] = Some fs" and pa: "path = path_of fs" and pr: "prev = prev_of fs"
    by blast
  from assms(3) pa obtain f fs' where fs: "fs = f # fs'" by (cases fs) auto
  let ?new = "Br Leaf (next_addr s) k Leaf"
  from wire_wf[OF wf de] obtain s1 where
    iw: "insert_wire s k (prev_of fs) = Some s1" and wf1: "wf_tree s1 (plug ?new fs)"
    and al1: "alpha s1 = alpha s"
    by blast
  from wf1 have st1: "stored (heap s1) (plug ?new (f # fs'))"
    and di1: "distinct (addrs (plug ?new (f # fs')))"
    and ir: "in_range (alpha s1)" and ro1: "root_f s1 = rootp (plug ?new (f # fs'))"
    by (auto simp: wf_tree_def fs)
  have a1: "alpha s1 = Num a" "0 < a" "a < 1" using ir al1 aa by simp_all
  from findScapegoat_frames[OF st1 di1 a1, of fp] obtain gs hs where
    g: "fs' = gs @ hs"
    and fsc: "findScapegoat fp s1 (path_of (f # fs')) =
         Some \<lparr>scapegoat = rootp (plug ?new (f # gs)), parent = prev_of hs,
               treeSize = tsize (plug ?new (f # gs))\<rparr>"
    by blast
  have nn: "rootp (plug ?new (f # gs)) \<noteq> None"
    using plug_not_Leaf[of "fill f ?new" gs] by simp
  have top: "prev_of hs = None \<Longrightarrow> rootp (plug ?new (f # gs)) = root_f s1"
    using g ro1 by (cases hs) auto
  show ?thesis
    apply (rule exI[of _ s1])
    apply (rule exI[of _ "\<lparr>scapegoat = rootp (plug ?new (f # gs)), parent = prev_of hs,
               treeSize = tsize (plug ?new (f # gs))\<rparr>"])
    using iw fsc nn top pa pr fs path_of_sentinel(1,2)[of fs] by simp
qed

lemma run7:
  "g_run exact_fpu (29/50) g_init calls7 =
     ([True, True, True, True, True, True, True],
      \<lparr>g_tree = Br (Br (Br (Br Leaf 6 30 Leaf) 3 40 Leaf) 1 50 Leaf) 0 100
                    (Br (Br Leaf 4 125 Leaf) 2 150 (Br Leaf 5 175 Leaf)),
       g_next = 7, g_max = 7, g_succ = True\<rparr>)"
  by (simp add: calls7_def g_init_def g_run.simps(2) g_insert_def Let_def adh_58 Suc_eq_plus1
      del: One_nat_def)

lemma fresh7:
  "\<exists>s. fresh_run exact_fpu (Num (29/50)) calls7 = Some ([True, True, True, True, True, True, True], s)
     \<and> models (29/50) s
         \<lparr>g_tree = Br (Br (Br (Br Leaf 6 30 Leaf) 3 40 Leaf) 1 50 Leaf) 0 100
                       (Br (Br Leaf 4 125 Leaf) 2 150 (Br Leaf 5 175 Leaf)),
          g_next = 7, g_max = 7, g_succ = True\<rparr>"
proof -
  from fresh_run_models[of "29/50" exact_fpu calls7] obtain s where
    "fresh_run exact_fpu (Num (29/50)) calls7 = Some (expected {} calls7, s)"
    "models (29/50) s (snd (g_run exact_fpu (29/50) g_init calls7))"
    by auto
  moreover have "expected {} calls7 = [True, True, True, True, True, True, True]"
    by (simp add: calls7_def)
  ultimately show ?thesis unfolding run7 by auto
qed

theorem findScapegoat_safe_witness:
  "\<exists>bs s prev s1 sg. fresh_run exact_fpu (Num (29/50)) calls7 = Some (bs, s)
     \<and> insert_loop (heap s) 20 [None] None (root_f s)
         = Some (Some ([Some 6, Some 3, Some 1, Some 0, None], prev))
     \<and> insert_wire s 20 prev = Some s1
     \<and> findScapegoat exact_fpu s1 [Some 6, Some 3, Some 1, Some 0, None] = Some sg
     \<and> scapegoat sg \<noteq> None"
proof -
  let ?t = "Br (Br (Br (Br Leaf 6 30 Leaf) 3 40 Leaf) 1 50 Leaf) 0 100
               (Br (Br Leaf 4 125 Leaf) 2 150 (Br Leaf 5 175 Leaf))"
  from fresh7 obtain s where
    r: "fresh_run exact_fpu (Num (29/50)) calls7 = Some ([True, True, True, True, True, True, True], s)"
    and m: "models (29/50) s \<lparr>g_tree = ?t, g_next = 7, g_max = 7, g_succ = True\<rparr>"
    by blast
  from m have st: "stored (heap s) ?t" and ro: "root_f s = rootp ?t"
    by (simp_all add: models_def wf_tree_def)
  have il: "insert_loop (heap s) 20 [None] None (root_f s)
      = Some (Some ([Some 6, Some 3, Some 1, Some 0, None], Some 6))"
    using insert_loop_stored[OF st, of 20 "[]"] unfolding ro by simp
  from findScapegoat_safe[OF r il] obtain s1 sg where
    "insert_wire s 20 (Some 6) = Some s1"
    "findScapegoat exact_fpu s1 [Some 6, Some 3, Some 1, Some 0, None] = Some sg"
    "scapegoat sg \<noteq> None"
    by auto
  with r il show ?thesis by blast
qed

lemma adh_log: "adh a n = nat \<lfloor>log (1 / a) (real n)\<rfloor>"
  by (simp add: adh_def log_def)



section \<open>Removal\<close>

lemma remove_loop_frames:
  assumes "wf_tree s t"
    and "remove_loop (heap s) k None (root_f s) = Some (Some (prev, cur))"
  shows "\<exists>u fs. locate k t [] = Some (u, fs) \<and> prev = prev_of fs \<and> cur = rootp u"
  using remove_loop_stored[of "heap s" t k "[]"] assms by (auto simp: wf_tree_def)

text \<open>
  C5. In every state a fresh tree can reach, let the search of \<^verbatim>\<open>remove(k)\<close> find the key.
  The node is spliced out (state \<open>s1\<close>) and \<^verbatim>\<open>size\<close> is decremented, without wrapping
  (state \<open>s2\<close>). The test \<^verbatim>\<open>size <= alpha * maxSize\<close> is the comparison of doubles the code
  evaluates: both counts converted, the product rounded (\<open>below fp a\<close>). If it holds,
  \<^verbatim>\<open>rebuild\<close> runs on the whole tree (the root as scapegoat, no parent, \<^verbatim>\<open>size\<close> nodes),
  the tree \<open>t\<close> held before is replaced by the tree built of its nodes in order, and
  \<^verbatim>\<open>maxSize\<close> is reset to \<^verbatim>\<open>size\<close>. If it does not hold, \<^verbatim>\<open>remove\<close> returns in the state
  \<open>s2\<close>: nothing is rebuilt and \<^verbatim>\<open>maxSize\<close> is what it was.
\<close>

theorem remove_rebuild_protocol:
  assumes "fresh_run fp (Num a) cs = Some (bs, s)"
    and "remove_loop (heap s) k None (root_f s) = Some (Some (prev, cur))"
  shows "\<exists>s1 s2. remove_splice s prev cur = Some s1 \<and> 0 < size_f s1
      \<and> s2 = s1\<lparr>size_f := decr_size (size_f s1)\<rparr> \<and> size_f s2 = size_f s - 1
      \<and> maxSize s2 = maxSize s \<and> alpha s2 = Num a
      \<and> dle (of_size fp (size_f s2)) (dmul fp (alpha s2) (of_size fp (maxSize s2)))
          = below fp a (size_f s2) (maxSize s2)
      \<and> (if dle (of_size fp (size_f s2)) (dmul fp (alpha s2) (of_size fp (maxSize s2)))
          then \<exists>s' t. rebuild s2 \<lparr>scapegoat = root_f s2, parent = None, treeSize = size_f s2\<rparr>
                 = Some s'
             \<and> remove_key fp s k = Some (True, s')
             \<and> maxSize s' = size_f s' \<and> size_f s' = size_f s - 1
             \<and> tree_at (heap s2) (root_f s2) t
             \<and> tree_at (heap s') (root_f s') (build (nodes t))
          else remove_key fp s k = Some (True, s2))"
proof -
  define t where "t = g_tree (snd (g_run fp a g_init cs))"
  from fresh_run_reachable(1)[OF assms(1)] have wf: "wf_tree s t" and al: "alpha s = Num a"
    by (simp_all add: models_def t_def)
  from remove_loop_frames[OF wf assms(2)] obtain u fs where
    lo: "locate k t [] = Some (u, fs)" and pr: "prev = prev_of fs" and cu: "cur = rootp u"
    by blast
  let ?t1 = "plug (splice_tree (replaceWithSucc s) u) fs"
  from splice_wf[OF wf lo] obtain s1 where
    rs: "remove_splice s (prev_of fs) (rootp u) = Some s1"
    and wf1: "wf_tree (s1\<lparr>size_f := size_f s - 1\<rparr>) ?t1"
    and spos: "0 < size_f s" and sz1: "size_f s1 = size_f s"
    and ms1: "maxSize s1 = maxSize s" and al1: "alpha s1 = alpha s"
    by blast
  let ?s2 = "s1\<lparr>size_f := size_f s - 1\<rparr>"
  have ds: "decr_size (size_f s1) = size_f s - 1" using spos sz1 by (simp add: decr_size_def)
  from wf1 have r1: "root_f ?s2 = rootp ?t1" and z1: "size_f ?s2 = tsize ?t1"
    and st1: "stored (heap ?s2) ?t1"
    by (auto simp: wf_tree_def)
  have rl: "remove_loop (heap s) k None (root_f s) = Some (Some (prev_of fs, rootp u))"
    using assms(2) pr cu by simp
  have cmp: "dle (of_size fp (size_f ?s2)) (dmul fp (alpha ?s2) (of_size fp (maxSize ?s2)))
      = below fp a (size_f s - 1) (maxSize s)"
    using dle_below[of fp "size_f s - 1" a "maxSize s"] by (simp add: al1 al ms1)
  have branch: "if below fp a (size_f s - 1) (maxSize s)
          then \<exists>s' t. rebuild ?s2 \<lparr>scapegoat = root_f ?s2, parent = None, treeSize = size_f ?s2\<rparr>
                 = Some s'
             \<and> remove_key fp s k = Some (True, s')
             \<and> maxSize s' = size_f s' \<and> size_f s' = size_f s - 1
             \<and> tree_at (heap ?s2) (root_f ?s2) t
             \<and> tree_at (heap s') (root_f s') (build (nodes t))
          else remove_key fp s k = Some (True, ?s2)"
  proof (cases "below fp a (size_f s - 1) (maxSize s)")
    case True
    from rebuild_wf[of ?s2 ?t1 "[]"] wf1 obtain s' where
      rb: "rebuild ?s2 \<lparr>scapegoat = rootp ?t1, parent = None, treeSize = tsize ?t1\<rparr> = Some s'"
      and wf2: "wf_tree s' (build (nodes ?t1))"
      and ms2: "maxSize s' = size_f ?s2" and sz2: "size_f s' = size_f ?s2"
      by auto
    have rk: "remove_key fp s k = Some (True, s')"
      using True rb r1[symmetric] z1[symmetric] cmp
      by (simp add: remove_key_def rl rs ds Let_def)
    from wf2 have ta: "tree_at (heap s') (root_f s') (build (nodes ?t1))"
      by (simp add: wf_tree_def tree_at_def)
    have tb: "tree_at (heap ?s2) (root_f ?s2) ?t1"
      using r1 st1 by (simp add: tree_at_def)
    have "\<exists>s' t. rebuild ?s2 \<lparr>scapegoat = root_f ?s2, parent = None, treeSize = size_f ?s2\<rparr>
                 = Some s'
             \<and> remove_key fp s k = Some (True, s')
             \<and> maxSize s' = size_f s' \<and> size_f s' = size_f s - 1
             \<and> tree_at (heap ?s2) (root_f ?s2) t
             \<and> tree_at (heap s') (root_f s') (build (nodes t))"
      apply (rule exI[of _ s'], rule exI[of _ ?t1])
      using rb rk ms2 sz2 ta tb r1 z1 by simp
    then show ?thesis using True by simp
  next
    case False
    have rk: "remove_key fp s k = Some (True, ?s2)"
      using False cmp by (simp add: remove_key_def rl rs ds Let_def)
    then show ?thesis using False by simp
  qed
  show ?thesis
    apply (rule exI[of _ s1], rule exI[of _ ?s2])
    using rs spos sz1 ds ms1 al1 al branch cmp unfolding pr cu by simp
qed

lemma fresh9:
  "\<exists>s. fresh_run exact_fpu (Num (29/50)) (calls7 @ [Remove 30, Remove 40])
       = Some ([True, True, True, True, True, True, True, True, True], s)
     \<and> models (29/50) s
         \<lparr>g_tree = Br (Br Leaf 1 50 Leaf) 0 100 (Br (Br Leaf 4 125 Leaf) 2 150 (Br Leaf 5 175 Leaf)),
          g_next = 7, g_max = 7, g_succ = True\<rparr>"
proof -
  let ?cs = "calls7 @ [Remove 30, Remove 40]"
  have g: "g_run exact_fpu (29/50) g_init ?cs =
     ([True, True, True, True, True, True, True, True, True],
      \<lparr>g_tree = Br (Br Leaf 1 50 Leaf) 0 100 (Br (Br Leaf 4 125 Leaf) 2 150 (Br Leaf 5 175 Leaf)),
       g_next = 7, g_max = 7, g_succ = True\<rparr>)"
    by (simp add: calls7_def g_init_def g_run.simps(2) g_insert_def g_remove_def Let_def adh_58
        Suc_eq_plus1 del: One_nat_def)
  from fresh_run_models[of "29/50" exact_fpu ?cs] obtain s where
    "fresh_run exact_fpu (Num (29/50)) ?cs = Some (expected {} ?cs, s)"
    "models (29/50) s (snd (g_run exact_fpu (29/50) g_init ?cs))"
    by auto
  moreover have "expected {} ?cs = [True, True, True, True, True, True, True, True, True]"
    by (simp add: calls7_def)
  ultimately show ?thesis unfolding g by auto
qed

theorem remove_rebuild_protocol_witness:
  "(\<exists>bs s s1 s'. fresh_run exact_fpu (Num (29/50)) (calls7 @ [Remove 30, Remove 40]) = Some (bs, s)
      \<and> remove_loop (heap s) 50 None (root_f s) = Some (Some (Some 0, Some 1))
      \<and> remove_splice s (Some 0) (Some 1) = Some s1 \<and> size_f s = 5 \<and> maxSize s = 7
      \<and> rebuild (s1\<lparr>size_f := 4\<rparr>) \<lparr>scapegoat = root_f s1, parent = None, treeSize = 4\<rparr> = Some s'
      \<and> remove_key exact_fpu s 50 = Some (True, s') \<and> size_f s' = 4 \<and> maxSize s' = 4)
   \<and> (\<exists>bs s s1. fresh_run exact_fpu (Num (29/50)) calls7 = Some (bs, s)
      \<and> remove_loop (heap s) 30 None (root_f s) = Some (Some (Some 3, Some 6))
      \<and> remove_splice s (Some 3) (Some 6) = Some s1 \<and> size_f s = 7 \<and> maxSize s = 7
      \<and> remove_key exact_fpu s 30 = Some (True, s1\<lparr>size_f := 6\<rparr>) \<and> maxSize s1 = 7)"
proof
  let ?r = "Br (Br Leaf 4 125 Leaf) 2 150 (Br Leaf 5 175 Leaf)"
  let ?t = "Br (Br Leaf 1 50 Leaf) 0 100 ?r"
  let ?cs = "calls7 @ [Remove 30, Remove 40]"
  from fresh9 obtain s where
    r: "fresh_run exact_fpu (Num (29/50)) ?cs = Some ([True, True, True, True, True, True, True, True, True], s)"
    and m: "models (29/50) s \<lparr>g_tree = ?t, g_next = 7, g_max = 7, g_succ = True\<rparr>"
    by blast
  from m have wf: "wf_tree s ?t" and ms: "maxSize s = 7"
    by (simp_all add: models_def)
  from wf have st: "stored (heap s) ?t" and ro: "root_f s = rootp ?t"
    and sz: "size_f s = tsize ?t"
    by (simp_all add: wf_tree_def)
  have sz5: "size_f s = 5" unfolding sz by simp
  have rl: "remove_loop (heap s) 50 None (root_f s) = Some (Some (Some 0, Some 1))"
    using remove_loop_stored[OF st, of 50 "[]"] unfolding ro by simp
  from remove_rebuild_protocol[OF r rl, unfolded sz5 ms] obtain s1 s' where
    "remove_splice s (Some 0) (Some 1) = Some s1"
    "rebuild (s1\<lparr>size_f := 4\<rparr>) \<lparr>scapegoat = root_f s1, parent = None, treeSize = 4\<rparr> = Some s'"
    "remove_key exact_fpu s 50 = Some (True, s')" "size_f s' = 4" "maxSize s' = 4"
    by (auto simp: dle_below split: if_splits)
  with r rl sz5 ms
  show "\<exists>bs s s1 s'. fresh_run exact_fpu (Num (29/50)) ?cs = Some (bs, s)
      \<and> remove_loop (heap s) 50 None (root_f s) = Some (Some (Some 0, Some 1))
      \<and> remove_splice s (Some 0) (Some 1) = Some s1 \<and> size_f s = 5 \<and> maxSize s = 7
      \<and> rebuild (s1\<lparr>size_f := 4\<rparr>) \<lparr>scapegoat = root_f s1, parent = None, treeSize = 4\<rparr> = Some s'
      \<and> remove_key exact_fpu s 50 = Some (True, s') \<and> size_f s' = 4 \<and> maxSize s' = 4"
    by blast
next
  let ?r = "Br (Br Leaf 4 125 Leaf) 2 150 (Br Leaf 5 175 Leaf)"
  let ?t = "Br (Br (Br (Br Leaf 6 30 Leaf) 3 40 Leaf) 1 50 Leaf) 0 100 ?r"
  from fresh7 obtain s where
    r: "fresh_run exact_fpu (Num (29/50)) calls7 = Some ([True, True, True, True, True, True, True], s)"
    and m: "models (29/50) s \<lparr>g_tree = ?t, g_next = 7, g_max = 7, g_succ = True\<rparr>"
    by blast
  from m have wf: "wf_tree s ?t" and ms: "maxSize s = 7"
    by (simp_all add: models_def)
  from wf have st: "stored (heap s) ?t" and ro: "root_f s = rootp ?t"
    and sz: "size_f s = tsize ?t"
    by (simp_all add: wf_tree_def)
  have sz7: "size_f s = 7" unfolding sz by simp
  have rl: "remove_loop (heap s) 30 None (root_f s) = Some (Some (Some 3, Some 6))"
    using remove_loop_stored[OF st, of 30 "[]"] unfolding ro by simp
  from remove_rebuild_protocol[OF r rl, unfolded sz7 ms] obtain s1 where
    "remove_splice s (Some 3) (Some 6) = Some s1"
    "remove_key exact_fpu s 30 = Some (True, s1\<lparr>size_f := 6\<rparr>)" "maxSize s1 = 7"
    by (auto simp: dle_below split: if_splits)
  with r rl sz7 ms
  show "\<exists>bs s s1. fresh_run exact_fpu (Num (29/50)) calls7 = Some (bs, s)
      \<and> remove_loop (heap s) 30 None (root_f s) = Some (Some (Some 3, Some 6))
      \<and> remove_splice s (Some 3) (Some 6) = Some s1 \<and> size_f s = 7 \<and> maxSize s = 7
      \<and> remove_key exact_fpu s 30 = Some (True, s1\<lparr>size_f := 6\<rparr>) \<and> maxSize s1 = 7"
    by blast
qed

subsection \<open>Nodes with two children\<close>

lemma stored_node:
  "stored h t \<Longrightarrow> (c, x) \<in> set (nodes t) \<Longrightarrow> \<exists>n. h c = Some n \<and> key n = x"
  by (induction t) auto

lemma del_min_node:
  "stored h r \<Longrightarrow> r \<noteq> Leaf \<Longrightarrow>
   \<exists>n. h (fst (fst (del_min r))) = Some n \<and> key n = snd (fst (del_min r)) \<and> left n = None"
  by (induction r) auto

lemma del_max_node:
  "stored h l \<Longrightarrow> l \<noteq> Leaf \<Longrightarrow>
   \<exists>n. h (fst (fst (del_max l))) = Some n \<and> key n = snd (fst (del_max l)) \<and> right n = None"
  by (induction l) auto

lemma g_insert_succ: "g_succ (snd (g_insert fp a g k)) = g_succ g"
  by (simp add: g_insert_def Let_def split: option.splits)

lemma g_remove_succ:
  "g_succ (snd (g_remove fp a g k)) =
     (case locate k (g_tree g) [] of None \<Rightarrow> g_succ g
      | Some (u, fs) \<Rightarrow> g_succ g \<noteq> two_children u)"
  by (simp add: g_remove_def Let_def split: option.splits)

lemma two_child_locate:
  assumes "wf_tree s t"
  shows "two_child_removal s (Remove k) =
     (case locate k t [] of None \<Rightarrow> False | Some (u, fs) \<Rightarrow> two_children u)"
proof -
  from assms have st: "stored (heap s) t" and ro: "root_f s = rootp t"
    by (auto simp: wf_tree_def)
  have rl: "remove_loop (heap s) k None (root_f s) =
      Some (map_option (\<lambda>(u', fs'). (prev_of fs', rootp u')) (locate k t []))"
    using remove_loop_stored[OF st, of k "[]"] ro by simp
  show ?thesis
  proof (cases "locate k t []")
    case None
    then show ?thesis by (simp add: two_child_removal_def rl)
  next
    case (Some p)
    obtain u fs where p: "p = (u, fs)" by (cases p)
    from locate_Some[of k t "[]" u fs] Some p obtain l c r where
      t: "plug u fs = t" and u: "u = Br l c k r" by auto
    from st have "stored (heap s) u" using stored_plug[of "heap s" u fs] t by simp
    then have "load (heap s) (rootp u) = Some \<lparr>key = k, left = rootp l, right = rootp r\<rparr>"
      by (simp add: u load_def)
    then show ?thesis using Some p by (simp add: two_child_removal_def rl u)
  qed
qed

lemma toggle_law:
  assumes "models a s g"
  shows "\<exists>b s'. do_call fp s c = Some (b, s')
     \<and> replaceWithSucc s' = (replaceWithSucc s \<noteq> two_child_removal s c)"
proof -
  from assms have wf: "wf_tree s (g_tree g)" and gs: "replaceWithSucc s = g_succ g"
    by (simp_all add: models_def)
  show ?thesis
  proof (cases c)
    case (Insert k)
    from insert_key_models[OF assms, of fp k] obtain s' where
      "insert_key fp s k = Some (fst (g_insert fp a g k), s')" "models a s' (snd (g_insert fp a g k))"
      by blast
    then show ?thesis using Insert gs
      by (auto simp: models_def g_insert_succ two_child_removal_def)
  next
    case (Remove k)
    from remove_key_models[OF assms, of fp k] obtain s' where
      "remove_key fp s k = Some (fst (g_remove fp a g k), s')" "models a s' (snd (g_remove fp a g k))"
      by blast
    then show ?thesis using Remove gs two_child_locate[OF wf, of k]
      by (auto simp: models_def g_remove_succ split: option.splits)
  qed
qed

text \<open>
  C6. In every state a fresh tree can reach, let \<^verbatim>\<open>remove(k)\<close> find \<open>k\<close> in a node \<open>c\<close> with
  two children, and let \<open>pre @ (c, k) # post\<close> be the in-order traversal of the tree
  (addresses with keys). \<^verbatim>\<open>remove\<close> calls \<^verbatim>\<open>removeNodeWithTwoChildren\<close>, which returns
  and negates \<^verbatim>\<open>replaceWithSucc\<close>. The node \<open>v\<close> it picks is the in-order successor (the
  first of \<open>post\<close>) when the toggle was \<open>true\<close> and the in-order predecessor (the last of
  \<open>pre\<close>) when it was \<open>false\<close>; that node has no left child, respectively no right
  child. Afterwards the node \<open>c\<close> holds the key of \<open>v\<close>, the node \<open>v\<close> is freed, and the
  store holds a tree whose in-order traversal is the old one with \<open>(c, k)\<close> replaced by
  \<open>c\<close> with the key of \<open>v\<close> and with \<open>v\<close> taken out. The whole \<^verbatim>\<open>remove\<close> returns \<open>true\<close>
  with the toggle negated; and a call of any kind changes the toggle exactly when it is
  a removal from a node with two children.
\<close>

theorem two_children_removal:
  assumes "fresh_run fp (Num a) cs = Some (bs, s)"
    and "remove_loop (heap s) k None (root_f s) = Some (Some (prev, cur))"
    and "load (heap s) cur = Some cn" and "left cn \<noteq> None" and "right cn \<noteq> None"
  shows "\<exists>c s1 t pre post v vn.
      cur = Some c \<and> remove_splice s prev cur = removeNodeWithTwoChildren s cur
      \<and> removeNodeWithTwoChildren s cur = Some s1
      \<and> replaceWithSucc s1 = (\<not> replaceWithSucc s)
      \<and> tree_at (heap s) (root_f s) t \<and> nodes t = pre @ (c, k) # post
      \<and> pre \<noteq> [] \<and> post \<noteq> []
      \<and> v = (if replaceWithSucc s then hd post else last pre)
      \<and> heap s (fst v) = Some vn \<and> key vn = snd v
      \<and> (if replaceWithSucc s then left vn = None else right vn = None)
      \<and> heap s1 (fst v) = None
      \<and> (\<exists>n. heap s1 c = Some n \<and> key n = snd v)
      \<and> (\<exists>t'. tree_at (heap s1) (root_f s1) t'
            \<and> nodes t' = (if replaceWithSucc s then pre @ (c, snd v) # tl post
                           else butlast pre @ (c, snd v) # post))
      \<and> (\<exists>s'. remove_key fp s k = Some (True, s') \<and> replaceWithSucc s' = (\<not> replaceWithSucc s))
      \<and> (\<forall>c. \<exists>b s'. do_call fp s c = Some (b, s')
            \<and> replaceWithSucc s' = (replaceWithSucc s \<noteq> two_child_removal s c))"
proof -
  define g where "g = snd (g_run fp a g_init cs)"
  define t where "t = g_tree g"
  define b where "b = replaceWithSucc s"
  from fresh_run_reachable(1)[OF assms(1)] have m: "models a s g" by (simp add: g_def)
  then have wf: "wf_tree s t" and gs: "g_succ g = b"
    by (simp_all add: models_def t_def b_def)
  from wf have st: "stored (heap s) t" and ro: "root_f s = rootp t" and bt: "bst t"
    by (auto simp: wf_tree_def)
  from remove_loop_frames[OF wf assms(2)] obtain u fs where
    lo: "locate k t [] = Some (u, fs)" and pr: "prev = prev_of fs" and cu: "cur = rootp u"
    by blast
  from locate_Some[OF lo] obtain l c r where tu: "plug u fs = t" and u: "u = Br l c k r"
    by auto
  from st have su: "stored (heap s) u" using stored_plug[of "heap s" u fs] tu by simp
  then have hc: "heap s c = Some \<lparr>key = k, left = rootp l, right = rootp r\<rparr>"
    and sl: "stored (heap s) l" and sr: "stored (heap s) r"
    by (simp_all add: u)
  from assms(3,4,5) hc have ln: "l \<noteq> Leaf" and rn: "r \<noteq> Leaf"
    by (auto simp: cu u load_def)
  have tc: "two_children u" using ln rn by (simp add: u)
  let ?t1 = "plug (splice_tree b u) fs"
  from splice_wf[OF wf lo] obtain s1 where
    rs: "remove_splice s (prev_of fs) (rootp u) = Some s1"
    and wf1: "wf_tree (s1\<lparr>size_f := size_f s - 1\<rparr>) ?t1"
    and rs1: "replaceWithSucc s1 = (replaceWithSucc s \<noteq> two_children u)"
    and vic: "heap s1 (victim b u) = None"
    unfolding b_def by blast
  have sp: "remove_splice s prev cur = removeNodeWithTwoChildren s cur"
    using assms(3,4,5) by (simp add: remove_splice_def)
  have rn2: "removeNodeWithTwoChildren s cur = Some s1"
    using rs sp by (simp add: pr cu)
  have tg: "replaceWithSucc s1 = (\<not> replaceWithSucc s)" using rs1 tc by simp
  from wf1 have ta1: "tree_at (heap s1) (root_f s1) ?t1"
    by (simp add: wf_tree_def tree_at_def)
  define pre where "pre = before fs @ nodes l"
  define post where "post = nodes r @ after fs"
  define v where "v = (if b then fst (del_min r) else fst (del_max l))"
  have nl: "nodes l \<noteq> []" and nr: "nodes r \<noteq> []" using ln rn by (simp_all add: nodes_Nil_iff)
  have nt: "nodes t = pre @ (c, k) # post"
    using nodes_plug[of u fs] tu by (simp add: u pre_def post_def)
  have pp: "pre \<noteq> []" "post \<noteq> []" using nl nr by (simp_all add: pre_def post_def)
  have vv: "v = (if b then hd post else last pre)"
    using nodes_del_min[OF rn] nodes_del_max[OF ln] nr
    by (simp add: v_def post_def pre_def)
  have vi: "victim b u = fst v" using ln rn by (simp add: u v_def)
  have "\<exists>vn. heap s (fst v) = Some vn \<and> key vn = snd v
      \<and> (if b then left vn = None else right vn = None)"
    using del_min_node[OF sr rn] del_max_node[OF sl ln] by (cases b) (simp_all add: v_def)
  then obtain vn where vn: "heap s (fst v) = Some vn" "key vn = snd v"
    "if b then left vn = None else right vn = None"
    by blast
  have n1: "nodes ?t1 = (if b then pre @ (c, snd v) # tl post
      else butlast pre @ (c, snd v) # post)"
  proof (cases b)
    case True
    have "tl post = nodes (snd (del_min r)) @ after fs"
      using nodes_del_min[OF rn] by (simp add: post_def)
    then show ?thesis
      using True ln rn by (simp add: nodes_plug u v_def pre_def)
  next
    case False
    have "butlast pre = before fs @ nodes (snd (del_max l))"
      using nodes_del_max[OF ln] by (simp add: pre_def butlast_append)
    then show ?thesis
      using False ln rn by (simp add: nodes_plug u v_def post_def)
  qed
  have "(c, snd v) \<in> set (nodes ?t1)" unfolding n1 by simp
  from stored_node[OF _ this, of "heap s1"] ta1
  have kc: "\<exists>n. heap s1 c = Some n \<and> key n = snd v" by (simp add: tree_at_def)
  have kin: "k \<in> set (keys t)" using lo locate_None[OF bt, of k "[]"] by auto
  from remove_key_models[OF m, of fp k] obtain s' where
    rk: "remove_key fp s k = Some (fst (g_remove fp a g k), s')"
    and m': "models a s' (snd (g_remove fp a g k))"
    and fk: "fst (g_remove fp a g k) = (k \<in> set (keys (g_tree g)))"
    by blast
  have rk': "\<exists>s'. remove_key fp s k = Some (True, s') \<and> replaceWithSucc s' = (\<not> replaceWithSucc s)"
    apply (rule exI[of _ s'])
    using rk m' fk kin lo tc gs
    by (simp add: models_def g_remove_succ t_def[symmetric] b_def)
  have tl: "\<forall>c. \<exists>b s'. do_call fp s c = Some (b, s')
            \<and> replaceWithSucc s' = (replaceWithSucc s \<noteq> two_child_removal s c)"
    using toggle_law[OF m] by blast
  have ta: "tree_at (heap s) (root_f s) t" using st ro by (simp add: tree_at_def)
  have t1: "\<exists>t'. tree_at (heap s1) (root_f s1) t'
            \<and> nodes t' = (if replaceWithSucc s then pre @ (c, snd v) # tl post
                           else butlast pre @ (c, snd v) # post)"
    apply (rule exI[of _ ?t1])
    using ta1 n1 by (simp add: b_def)
  show ?thesis
    apply (rule exI[of _ c], rule exI[of _ s1], rule exI[of _ t], rule exI[of _ pre])
    apply (rule exI[of _ post], rule exI[of _ v], rule exI[of _ vn])
    apply (intro conjI)
    subgoal by (simp add: cu u)
    subgoal by (rule sp)
    subgoal by (rule rn2)
    subgoal by (rule tg)
    subgoal by (rule ta)
    subgoal by (rule nt)
    subgoal by (rule pp(1))
    subgoal by (rule pp(2))
    subgoal using vv by (simp add: b_def)
    subgoal by (rule vn(1))
    subgoal by (rule vn(2))
    subgoal using vn(3) by (simp add: b_def)
    subgoal using vic vi by simp
    subgoal by (rule kc)
    subgoal by (rule t1)
    subgoal by (rule rk')
    subgoal by (rule tl)
    done
qed

theorem two_children_removal_witness:
  "\<exists>bs s s1. fresh_run exact_fpu (Num (29/50)) calls7 = Some (bs, s)
     \<and> remove_loop (heap s) 100 None (root_f s) = Some (Some (None, Some 0))
     \<and> load (heap s) (Some 0) = Some \<lparr>key = 100, left = Some 1, right = Some 2\<rparr>
     \<and> replaceWithSucc s
     \<and> heap s 4 = Some \<lparr>key = 125, left = None, right = None\<rparr>
     \<and> removeNodeWithTwoChildren s (Some 0) = Some s1
     \<and> replaceWithSucc s1 = False
     \<and> heap s1 0 = Some \<lparr>key = 125, left = Some 1, right = Some 2\<rparr>
     \<and> heap s1 4 = None"
proof -
  let ?r = "Br (Br Leaf 4 125 Leaf) 2 150 (Br Leaf 5 175 Leaf)"
  let ?t = "Br (Br (Br (Br Leaf 6 30 Leaf) 3 40 Leaf) 1 50 Leaf) 0 100 ?r"
  from fresh7 obtain s where
    r: "fresh_run exact_fpu (Num (29/50)) calls7 = Some ([True, True, True, True, True, True, True], s)"
    and m: "models (29/50) s \<lparr>g_tree = ?t, g_next = 7, g_max = 7, g_succ = True\<rparr>"
    by blast
  from m have wf: "wf_tree s ?t" and b: "replaceWithSucc s"
    by (simp_all add: models_def)
  from wf have st: "stored (heap s) ?t" and ro: "root_f s = rootp ?t"
    by (simp_all add: wf_tree_def)
  have rl: "remove_loop (heap s) 100 None (root_f s) = Some (Some (None, Some 0))"
    using remove_loop_stored[OF st, of 100 "[]"] unfolding ro by simp
  from st have h0: "heap s 0 = Some \<lparr>key = 100, left = Some 1, right = Some 2\<rparr>"
    and h4: "heap s 4 = Some \<lparr>key = 125, left = None, right = None\<rparr>"
    by simp_all
  have ld: "load (heap s) (Some 0) = Some \<lparr>key = 100, left = Some 1, right = Some 2\<rparr>"
    using h0 by (simp add: load_def)
  have ch: "left \<lparr>key = 100, left = Some (1::nat), right = Some (2::nat)\<rparr> \<noteq> None"
    "right \<lparr>key = 100, left = Some (1::nat), right = Some (2::nat)\<rparr> \<noteq> None"
    by simp_all
  from two_children_removal[OF r rl ld ch] obtain s1 where
    sp: "remove_splice s None (Some 0) = removeNodeWithTwoChildren s (Some 0)"
    and rn: "removeNodeWithTwoChildren s (Some 0) = Some s1"
    and tg: "replaceWithSucc s1 = (\<not> replaceWithSucc s)"
    by (elim exE conjE) simp_all
  have lo: "locate 100 ?t [] = Some (?t, [])" by simp
  from splice_wf[OF wf lo] sp rn b
  have "wf_tree (s1\<lparr>size_f := size_f s - 1\<rparr>) (plug (splice_tree True ?t) [])"
    and "heap s1 (victim True ?t) = None"
    by auto
  then have h4': "heap s1 4 = None"
    and h0': "heap s1 0 = Some \<lparr>key = 125, left = Some 1, right = Some 2\<rparr>"
    by (simp_all add: wf_tree_def)
  show ?thesis
    apply (rule exI[of _ "[True, True, True, True, True, True, True]"])
    apply (rule exI[of _ s], rule exI[of _ s1])
    using r rl ld b h4 rn tg h0' h4' by simp
qed

subsection \<open>Removing the last key\<close>

lemma single_tree:
  assumes "wf_tree s t" and "size_f s = 1" and "search s k = Some True"
  shows "\<exists>c. t = Br Leaf c k Leaf"
proof -
  from assms(1,2) have ts: "tsize t = 1" by (simp add: wf_tree_def)
  have "\<exists>c x. t = Br Leaf c x Leaf"
  proof (cases t)
    case Leaf
    with ts show ?thesis by simp
  next
    case (Br l c x r)
    with ts have "tsize l = 0" "tsize r = 0" by simp_all
    with tsize_pos[of l] tsize_pos[of r] have "l = Leaf" "r = Leaf" by auto
    with Br show ?thesis by simp
  qed
  then obtain c x where t: "t = Br Leaf c x Leaf" by blast
  from search_wf[OF assms(1), of k] assms(3) have "k \<in> set (keys t)" by simp
  with t show ?thesis by simp
qed

lemma empty_models:
  assumes "wf_tree s Leaf" and "maxSize s = 0"
    and "alpha s = Num a"
  shows "models a s \<lparr>g_tree = Leaf, g_next = next_addr s, g_max = 0,
           g_succ = replaceWithSucc s\<rparr>"
  using assms by (simp add: models_def wf_tree_def)

lemma empty_like_fresh:
  assumes "models a s g" and "g_tree g = Leaf"
  shows "\<exists>rs s' f'. run fp s cs = Some (rs, s') \<and> fresh_run fp (Num a) cs = Some (rs, f')
     \<and> (\<forall>x. \<exists>q. search s' x = Some q \<and> search f' x = Some q)"
proof -
  from assms(1) have a: "1 / 2 < a" "a < 1" by (auto simp: models_def wf_tree_def)
  from run_models[OF assms(1), of fp cs] assms(2) obtain s' where
    r: "run fp s cs = Some (expected {} cs, s')"
    and m': "models a s' (snd (g_run fp a g cs))"
    and l: "set (keys (g_tree (snd (g_run fp a g cs)))) = live_after {} cs"
    by auto
  from m' have "wf_tree s' (g_tree (snd (g_run fp a g cs)))" by (simp add: models_def)
  from search_wf[OF this] l have sq: "\<forall>x. search s' x = Some (x \<in> live_after {} cs)"
    by simp
  from fresh_run_search[OF a, of fp cs] obtain f' where
    f: "fresh_run fp (Num a) cs = Some (expected {} cs, f')"
    and fq: "\<forall>x. search f' x = Some (x \<in> live_after {} cs)"
    by blast
  show ?thesis
    apply (rule exI[of _ "expected {} cs"], rule exI[of _ s'], rule exI[of _ f'])
    using r f sq fq by simp
qed

text \<open>
  C10. \<^verbatim>\<open>flatten\<close> of an empty subtree returns the list head and leaves the store as it
  is, and \<^verbatim>\<open>buildTree(0, head)\<close> sets the left child of \<open>head\<close> to null and returns
  \<open>head\<close>. In every state a fresh tree can reach in which one key \<open>k\<close> is left,
  \<^verbatim>\<open>remove(k)\<close> finds the key at the root, the splice leaves the root null, the
  decremented size 0 satisfies \<open>size \<le> alpha * maxSize\<close> (exactly, and as the comparison
  of doubles the code evaluates), so that \<^verbatim>\<open>rebuild\<close> is called for
  the empty tree (null scapegoat, null parent, size 0), and it returns. \<^verbatim>\<open>remove\<close>
  returns \<open>true\<close> in a state with an empty store, a null root, \<open>size = 0\<close> and
  \<open>maxSize = 0\<close>, which differs from a freshly constructed tree in the allocator's next
  address and the toggle \<^verbatim>\<open>replaceWithSucc\<close> at most; whatever calls follow, they return
  the values they return on a fresh tree, and every \<^verbatim>\<open>search\<close> after them returns the
  same value on both.
\<close>

theorem remove_last_key:
  assumes "fresh_run fp (Num a) cs = Some (bs, s)" and "size_f s = 1" and "search s k = Some True"
  shows "flatten h None lh = Some (lh, h)
     \<and> buildTree h 0 lh = do { h' \<leftarrow> set_left h lh None; Some (lh, h') }
     \<and> (\<exists>s1 s'. remove_loop (heap s) k None (root_f s) = Some (Some (None, root_f s))
          \<and> remove_splice s None (root_f s) = Some s1 \<and> root_f s1 = None
          \<and> decr_size (size_f s1) = 0
          \<and> alpha s1 = Num a \<and> real (decr_size (size_f s1)) \<le> a * real (maxSize s1)
          \<and> dle (of_size fp (decr_size (size_f s1))) (dmul fp (alpha s1) (of_size fp (maxSize s1)))
          \<and> rebuild (s1\<lparr>size_f := 0\<rparr>) \<lparr>scapegoat = None, parent = None, treeSize = 0\<rparr> = Some s'
          \<and> remove_key fp s k = Some (True, s')
          \<and> s' = \<lparr>heap = Map.empty, next_addr = next_addr s, root_f = None, size_f = 0,
                   maxSize = 0, alpha = Num a, replaceWithSucc = replaceWithSucc s\<rparr>
          \<and> (\<forall>cs'. \<exists>rs s'' f''. run fp s' cs' = Some (rs, s'') \<and> fresh_run fp (Num a) cs' = Some (rs, f'')
                \<and> (\<forall>x. \<exists>q. search s'' x = Some q \<and> search f'' x = Some q)))"
proof (intro conjI)
  show "flatten h None lh = Some (lh, h)"
    by (subst flatten.simps) simp
  show "buildTree h 0 lh = do { h' \<leftarrow> set_left h lh None; Some (lh, h') }"
    by (subst buildTree.simps) simp
  define t where "t = g_tree (snd (g_run fp a g_init cs))"
  from fresh_run_reachable(1)[OF assms(1)] have wf: "wf_tree s t" and al: "alpha s = Num a"
    by (simp_all add: models_def t_def)
  from single_tree[OF wf assms(2,3)] obtain c where t: "t = Br Leaf c k Leaf" by blast
  from wf have st: "stored (heap s) t" and ro: "root_f s = rootp t"
    and ir: "in_range (alpha s)"
    by (auto simp: wf_tree_def)
  have a0: "0 < a" using ir al by simp
  have lo: "locate k t [] = Some (t, [])" by (simp add: t)
  have rl: "remove_loop (heap s) k None (root_f s) = Some (Some (None, root_f s))"
    using remove_loop_stored[OF st, of k "[]"] lo ro by simp
  from splice_wf[OF wf lo] obtain s1 where
    rs: "remove_splice s (prev_of []) (rootp t) = Some s1"
    and wf1: "wf_tree (s1\<lparr>size_f := size_f s - 1\<rparr>) (plug (splice_tree (replaceWithSucc s) t) [])"
    and sz1: "size_f s1 = size_f s"
    and ms1: "maxSize s1 = maxSize s" and al1: "alpha s1 = alpha s"
    and rs1: "replaceWithSucc s1 = (replaceWithSucc s \<noteq> two_children t)"
    and na1: "next_addr s1 = next_addr s"
    by blast
  let ?s2 = "s1\<lparr>size_f := 0\<rparr>"
  have wf2: "wf_tree ?s2 Leaf" using wf1 assms(2) by (simp add: t)
  then have r2: "root_f s1 = None" by (simp add: wf_tree_def)
  have ds: "decr_size (size_f s1) = 0" using sz1 assms(2) by (simp add: decr_size_def)
  have le: "real (decr_size (size_f s1)) \<le> a * real (maxSize s1)"
    using a0 by (simp add: ds)
  have a1: "alpha s1 = Num a" using al1 al by simp
  have "0 \<le> fp_round fp (a * fp_round fp (real (maxSize s1)))"
    using a0 by (intro fp_round_nonneg mult_nonneg_nonneg) simp_all
  then have dl: "dle (of_size fp (decr_size (size_f s1)))
      (dmul fp (alpha s1) (of_size fp (maxSize s1)))"
    by (simp add: ds a1 dle_below below_def)
  from rebuild_wf[of ?s2 Leaf "[]"] wf2 obtain s' where
    rb: "rebuild ?s2 \<lparr>scapegoat = None, parent = None, treeSize = 0\<rparr> = Some s'"
    and wf3: "wf_tree s' Leaf"
    and ms3: "maxSize s' = 0" and sz3: "size_f s' = 0"
    and al3: "alpha s' = alpha s1"
    and rs3: "replaceWithSucc s' = replaceWithSucc s1"
    and na3: "next_addr s' = next_addr s1"
    by auto
  have rk: "remove_key fp s k = Some (True, s')"
    using dl rb r2 by (simp add: remove_key_def rl rs[simplified, folded ro] ds Let_def)
  from wf3 have hp: "heap s' = Map.empty" and r3: "root_f s' = None"
    by (auto simp: wf_tree_def)
  have eq: "s' = \<lparr>heap = Map.empty, next_addr = next_addr s, root_f = None, size_f = 0,
                   maxSize = 0, alpha = Num a, replaceWithSucc = replaceWithSucc s\<rparr>"
    using hp r3 ms3 sz3 al3 al1 al rs3 rs1 na3 na1 by (simp add: t)
  have m3: "models a s' \<lparr>g_tree = Leaf, g_next = next_addr s', g_max = 0,
           g_succ = replaceWithSucc s'\<rparr>"
    using empty_models[OF wf3 ms3, of a] al3 al1 al by simp
  have like: "\<forall>cs'. \<exists>rs s'' f''. run fp s' cs' = Some (rs, s'') \<and> fresh_run fp (Num a) cs' = Some (rs, f'')
                \<and> (\<forall>x. \<exists>q. search s'' x = Some q \<and> search f'' x = Some q)"
    using empty_like_fresh[OF m3, of fp] by simp
  show "\<exists>s1 s'. remove_loop (heap s) k None (root_f s) = Some (Some (None, root_f s))
          \<and> remove_splice s None (root_f s) = Some s1 \<and> root_f s1 = None
          \<and> decr_size (size_f s1) = 0
          \<and> alpha s1 = Num a \<and> real (decr_size (size_f s1)) \<le> a * real (maxSize s1)
          \<and> dle (of_size fp (decr_size (size_f s1))) (dmul fp (alpha s1) (of_size fp (maxSize s1)))
          \<and> rebuild (s1\<lparr>size_f := 0\<rparr>) \<lparr>scapegoat = None, parent = None, treeSize = 0\<rparr> = Some s'
          \<and> remove_key fp s k = Some (True, s')
          \<and> s' = \<lparr>heap = Map.empty, next_addr = next_addr s, root_f = None, size_f = 0,
                   maxSize = 0, alpha = Num a, replaceWithSucc = replaceWithSucc s\<rparr>
          \<and> (\<forall>cs'. \<exists>rs s'' f''. run fp s' cs' = Some (rs, s'') \<and> fresh_run fp (Num a) cs' = Some (rs, f'')
                \<and> (\<forall>x. \<exists>q. search s'' x = Some q \<and> search f'' x = Some q))"
    apply (rule exI[of _ s1], rule exI[of _ s'])
    apply (intro conjI)
    subgoal by (rule rl)
    subgoal using rs ro by simp
    subgoal by (rule r2)
    subgoal by (rule ds)
    subgoal by (rule a1)
    subgoal by (rule le)
    subgoal by (rule dl)
    subgoal by (rule rb)
    subgoal by (rule rk)
    subgoal by (rule eq)
    subgoal by (rule like)
    done
qed

theorem remove_last_key_witness:
  "\<exists>bs s s'. fresh_run exact_fpu (Num (29/50)) [Insert 5] = Some (bs, s) \<and> size_f s = 1
     \<and> search s 5 = Some True
     \<and> flatten Map.empty None (Some 0) = Some (Some 0, Map.empty)
     \<and> buildTree (Map.empty(0 \<mapsto> \<lparr>key = -1, left = Some 3, right = None\<rparr>)) 0 (Some 0)
         = Some (Some 0, Map.empty(0 \<mapsto> \<lparr>key = -1, left = None, right = None\<rparr>))
     \<and> remove_key exact_fpu s 5 = Some (True, s')
     \<and> s' = \<lparr>heap = Map.empty, next_addr = 1, root_f = None, size_f = 0, maxSize = 0,
              alpha = Num (29/50), replaceWithSucc = True\<rparr>
     \<and> (\<exists>s'' f''. run exact_fpu s' [Insert 1, Insert 1, Remove 1] = Some ([True, False, True], s'')
           \<and> fresh_run exact_fpu (Num (29/50)) [Insert 1, Insert 1, Remove 1] = Some ([True, False, True], f''))"
proof -
  let ?h = "Map.empty(0 \<mapsto> \<lparr>key = -1, left = Some 3, right = None\<rparr>) :: heap"
  let ?cs = "[Insert 1, Insert 1, Remove 1]"
  have g: "g_run exact_fpu (29/50) g_init [Insert 5] =
      ([True], \<lparr>g_tree = Br Leaf 0 5 Leaf, g_next = 1, g_max = 1, g_succ = True\<rparr>)"
    by (simp add: g_init_def g_run.simps(2) g_insert_def Let_def)
  from fresh_run_models[of "29/50" exact_fpu "[Insert 5]"] obtain s where
    r: "fresh_run exact_fpu (Num (29/50)) [Insert 5] = Some (expected {} [Insert 5], s)"
    and m: "models (29/50) s (snd (g_run exact_fpu (29/50) g_init [Insert 5]))"
    by auto
  from m have wf: "wf_tree s (Br Leaf 0 5 Leaf)" and na: "next_addr s = 1"
    and b: "replaceWithSucc s = True"
    unfolding g by (simp_all add: models_def)
  from wf have sz: "size_f s = 1" by (simp add: wf_tree_def)
  have se: "search s 5 = Some True" using search_wf[OF wf, of 5] by simp
  note th = remove_last_key[OF r sz se]
  from th[of ?h "Some 0"] have bt: "buildTree ?h 0 (Some 0)
         = Some (Some 0, Map.empty(0 \<mapsto> \<lparr>key = -1, left = None, right = None\<rparr>))"
    by (simp add: set_left_def)
  from th[of Map.empty "Some 0"] obtain s' where
    fl: "flatten Map.empty None (Some 0) = Some (Some 0, Map.empty)"
    and rk: "remove_key exact_fpu s 5 = Some (True, s')"
    and eq: "s' = \<lparr>heap = Map.empty, next_addr = next_addr s, root_f = None, size_f = 0,
                   maxSize = 0, alpha = Num (29/50), replaceWithSucc = replaceWithSucc s\<rparr>"
    and like: "\<forall>cs'. \<exists>rs s'' f''. run exact_fpu s' cs' = Some (rs, s'')
        \<and> fresh_run exact_fpu (Num (29/50)) cs' = Some (rs, f'')
        \<and> (\<forall>x. \<exists>q. search s'' x = Some q \<and> search f'' x = Some q)"
    by (elim exE conjE) simp_all
  from like[rule_format, of ?cs] obtain rs s'' f'' where
    r1: "run exact_fpu s' ?cs = Some (rs, s'')" and r2: "fresh_run exact_fpu (Num (29/50)) ?cs = Some (rs, f'')"
    by blast
  from fresh_run_models[of "29/50" exact_fpu ?cs] r2 have "rs = [True, False, True]" by auto
  with r1 r2 have l3: "\<exists>s'' f''. run exact_fpu s' ?cs = Some ([True, False, True], s'')
           \<and> fresh_run exact_fpu (Num (29/50)) ?cs = Some ([True, False, True], f'')"
    by blast
  show ?thesis
    apply (rule exI[of _ "expected {} [Insert 5]"], rule exI[of _ s], rule exI[of _ s'])
    using r sz se fl bt rk eq na b l3 by simp
qed

section \<open>Rebuilding a subtree\<close>

lemma tsize_build_len: "tsize (build xs) = length xs"
  by (simp add: tsize_addrs addrs_build)

lemma split_build:
  assumes "xs \<noteq> []"
  shows "tsize (build (take (length xs div 2) xs)) = nat \<lceil>(real (length xs) - 1) / 2\<rceil>"
    and "tsize (build (drop (Suc (length xs div 2)) xs)) = nat \<lfloor>(real (length xs) - 1) / 2\<rfloor>"
proof -
  have n: "0 < length xs" using assms by simp
  show "tsize (build (take (length xs div 2) xs)) = nat \<lceil>(real (length xs) - 1) / 2\<rceil>"
    using half_ceil[OF n] by (simp add: tsize_build_len)
  have "length xs - Suc (length xs div 2) = (length xs - 1) div 2" by arith
  then show "tsize (build (drop (Suc (length xs div 2)) xs)) = nat \<lfloor>(real (length xs) - 1) / 2\<rfloor>"
    using half_floor[OF n] by (simp add: tsize_build_len)
qed

lemma evenly_split_build: "evenly_split (build xs)"
proof (induction xs rule: build.induct)
  case (1 xs)
  show ?case
  proof (cases "xs = []")
    case True
    then show ?thesis by simp
  next
    case False
    have n: "tsize (build xs) = length xs" by (rule tsize_build_len)
    show ?thesis
      using n "1.IH"[OF False] split_build[OF False]
      by (subst (asm) build.simps, subst build.simps) (simp add: False)
  qed
qed

lemma within_one_build: "within_one (build xs)"
proof (induction xs rule: build.induct)
  case (1 xs)
  show ?case
  proof (cases "xs = []")
    case True
    then show ?thesis by simp
  next
    case False
    have "length xs - Suc (length xs div 2) \<le> length xs div 2"
      "length xs div 2 \<le> length xs - Suc (length xs div 2) + 1"
      using False by (cases xs; simp; arith)+
    then show ?thesis
      using "1.IH"[OF False]
      by (subst build.simps) (simp add: False tsize_build_len)
  qed
qed

text \<open>
  C4. Let the store hold a tree \<open>u\<close> of \<open>n\<close> nodes at distinct addresses, and let \<open>d\<close> be
  a node outside it (the dummy of \<^verbatim>\<open>rebuild\<close>). Then \<^verbatim>\<open>flatten\<close> returns and leaves the
  nodes of \<open>u\<close>, in in-order, on a right-linked chain that ends in \<open>d\<close>; \<^verbatim>\<open>buildTree(n, ...)\<close>
  on that chain returns \<open>d\<close>, whose left child is then the root of a tree \<open>t'\<close> held by the
  store. The tree \<open>t'\<close> has the same in-order traversal as \<open>u\<close> (the same nodes with the
  same keys, in the same order, so the same \<open>n\<close> keys), at every node of \<open>t'\<close> with a
  subtree of \<open>m\<close> nodes the left subtree has \<open>\<lceil>(m-1)/2\<rceil>\<close> nodes and the right subtree
  \<open>\<lfloor>(m-1)/2\<rfloor>\<close>, and the sizes of sibling subtrees differ by at most 1.
\<close>

theorem flatten_buildTree:
  assumes "owns h p u" and "d \<notin> set (addrs u)" and "h d = Some dn"
  shows "\<exists>q h1 h2 t'. flatten h p (Some d) = Some (q, h1)
      \<and> chain h1 q (nodes u) (Some d)
      \<and> buildTree h1 (tsize u) q = Some (Some d, h2)
      \<and> h2 d = Some (dn\<lparr>left := rootp t'\<rparr>) \<and> stored h2 t'
      \<and> t' = build (nodes u)
      \<and> nodes t' = nodes u \<and> keys t' = keys u \<and> tsize t' = tsize u
      \<and> evenly_split t' \<and> within_one t'"
proof -
  from assms(1) have p: "p = rootp u" and st: "stored h u" and di: "distinct (addrs u)"
    by (simp_all add: owns_def tree_at_def)
  from flatten_build[OF st di assms(2,3)] obtain q h1 h2 where
    fl: "flatten h (rootp u) (Some d) = Some (q, h1)"
    and bt: "buildTree h1 (tsize u) q = Some (Some d, h2)"
    and hd: "h2 d = Some (dn\<lparr>left := rootp (build (nodes u))\<rparr>)"
    and sb: "stored h2 (build (nodes u))"
    by blast
  from flatten_stored[OF st di, of "Some d"] fl have ch: "chain h1 q (nodes u) (Some d)"
    by auto
  show ?thesis
    apply (rule exI[of _ q], rule exI[of _ h1], rule exI[of _ h2])
    apply (rule exI[of _ "build (nodes u)"])
    using fl ch bt hd sb evenly_split_build[of "nodes u"] within_one_build[of "nodes u"]
    by (simp add: p build_nodes keys_build tsize_build)
qed

theorem flatten_buildTree_witness:
  "\<exists>q h1 h2. flatten spine3 (Some 0) (Some 3) = Some (q, h1)
      \<and> chain h1 q [(0, 10), (1, 20), (2, 30)] (Some 3)
      \<and> buildTree h1 3 q = Some (Some 3, h2)
      \<and> h2 3 = Some \<lparr>key = -1, left = Some 1, right = None\<rparr>
      \<and> stored h2 (Br (Br Leaf 0 10 Leaf) 1 20 (Br Leaf 2 30 Leaf))
      \<and> keys (Br (Br Leaf 0 10 Leaf) 1 20 (Br Leaf 2 30 Leaf)) = [10, 20, 30]"
proof -
  let ?u = "Br Leaf 0 10 (Br Leaf 1 20 (Br Leaf 2 30 Leaf))"
  let ?dn = "\<lparr>key = -1, left = None, right = None\<rparr>"
  have ow: "owns spine3 (Some 0) ?u"
    by (simp add: owns_def tree_at_def spine3_def)
  have d: "3 \<notin> set (addrs ?u)" by simp
  have hd: "spine3 3 = Some ?dn" by (simp add: spine3_def)
  have b: "build [(0, 10), (1, 20), (2, 30)] = Br (Br Leaf 0 10 Leaf) 1 20 (Br Leaf 2 30 Leaf)"
    by (simp add: build.simps)
  have nu: "nodes ?u = [(0, 10), (1, 20), (2, 30)]" and tu: "tsize ?u = 3" by simp_all
  from flatten_buildTree[OF ow d hd] obtain q h1 h2 where
    fl: "flatten spine3 (Some 0) (Some 3) = Some (q, h1)"
    and ch: "chain h1 q (nodes ?u) (Some 3)"
    and bt: "buildTree h1 (tsize ?u) q = Some (Some 3, h2)"
    and h3: "h2 3 = Some (?dn\<lparr>left := rootp (build (nodes ?u))\<rparr>)"
    and sb: "stored h2 (build (nodes ?u))"
    by blast
  have h3': "h2 3 = Some \<lparr>key = -1, left = Some 1, right = None\<rparr>"
    using h3 unfolding nu b by simp
  have k: "keys (Br (Br Leaf 0 10 Leaf) 1 20 (Br Leaf 2 30 Leaf)) = [10, 20, 30]" by simp
  show ?thesis
    apply (rule exI[of _ q], rule exI[of _ h1], rule exI[of _ h2])
    apply (intro conjI)
    subgoal by (rule fl)
    subgoal using ch unfolding nu .
    subgoal using bt unfolding tu .
    subgoal by (rule h3')
    subgoal using sb unfolding nu b .
    subgoal by (rule k)
    done
qed

end
